theory Spec2Isabelle
  imports Main "HOL-Library.Word"
begin

unbundle bit_operations_syntax

section \<open>The outbound packet queue of the HR20 master (src/src/packetqueue.h)\<close>

subsection \<open>Machine types\<close>

text \<open>
  \<^verbatim>\<open>uint8_t\<close> and \<^verbatim>\<open>int8_t\<close> are both 8-bit words. An \<^verbatim>\<open>int8_t\<close> is read with
  \<open>sint\<close>, a \<^verbatim>\<open>uint8_t\<close> with \<open>uint\<close> or \<open>unat\<close>; a comparison of the two in C++
  promotes both to \<^verbatim>\<open>int\<close>, so it compares \<open>sint x\<close> with \<open>uint y\<close>. Storing a
  \<^verbatim>\<open>uint8_t\<close> in an \<^verbatim>\<open>int8_t\<close> keeps the eight bits. \<^verbatim>\<open>time_t\<close> is a signed count of
  seconds; it is modelled as \<open>int\<close>, so the one sum the code takes of two times is the
  exact sum (signed overflow is undefined in C++ and is not modelled).
\<close>

type_synonym uint8_t = "8 word"

type_synonym int8_t = "8 word"

type_synonym time_t = int

definition PACKET_QUEUE_LEN :: nat where
  "PACKET_QUEUE_LEN = 32"

definition SENT_PACKET_LEN :: nat where
  "SENT_PACKET_LEN = 76"

definition MASTER_ADDR :: int where
  "MASTER_ADDR = 0x00"

definition SYNC_ADDR :: int where
  "SYNC_ADDR = 0x21"

subsection \<open>The bounded byte buffer \<^verbatim>\<open>ShortQ<N>\<close>\<close>

text \<open>
  Modelled from the spec: \<^verbatim>\<open>queue.h\<close>, which declares \<^verbatim>\<open>ShortQ<N>\<close>, is not among the
  sources. The spec describes a FIFO of octets of fixed capacity \<open>N\<close> with a count:
  \<^verbatim>\<open>push\<close> appends at the tail when \<open>free_size() > 0\<close> and fails silently otherwise,
  \<^verbatim>\<open>peek\<close> returns the oldest byte, \<^verbatim>\<open>pop\<close> removes it (both are undefined on an empty
  buffer), \<^verbatim>\<open>clear\<close> empties the buffer, \<^verbatim>\<open>data()\<close> and \<^verbatim>\<open>size()\<close> expose the live bytes
  and \<open>free_size() = N - count\<close>. The buffer is the list of its live bytes, oldest
  first; the capacity is the template argument and is passed to the operations that
  read it. \<open>sq_peek\<close> and \<open>sq_pop\<close> return \<open>None\<close> on an empty buffer.
\<close>

type_synonym ShortQ = "uint8_t list"

definition sq_clear :: "ShortQ \<Rightarrow> ShortQ" where
  "sq_clear b = []"

definition sq_empty :: "ShortQ \<Rightarrow> bool" where
  "sq_empty b = (b = [])"

definition sq_size :: "ShortQ \<Rightarrow> nat" where
  "sq_size b = length b"

definition sq_data :: "ShortQ \<Rightarrow> uint8_t list" where
  "sq_data b = b"

definition sq_free_size :: "nat \<Rightarrow> ShortQ \<Rightarrow> nat" where
  "sq_free_size N b = N - length b"

definition sq_push :: "nat \<Rightarrow> uint8_t \<Rightarrow> ShortQ \<Rightarrow> ShortQ" where
  "sq_push N c b = (if 0 < sq_free_size N b then b @ [c] else b)"

definition sq_peek :: "ShortQ \<Rightarrow> uint8_t option" where
  "sq_peek b = (case b of [] \<Rightarrow> None | c # _ \<Rightarrow> Some c)"

definition sq_pop :: "ShortQ \<Rightarrow> ShortQ option" where
  "sq_pop b = (case b of [] \<Rightarrow> None | _ # rest \<Rightarrow> Some rest)"

fun sq_push_all :: "nat \<Rightarrow> uint8_t list \<Rightarrow> ShortQ \<Rightarrow> ShortQ" where
  "sq_push_all N [] b = b"
| "sq_push_all N (c # cs) b = sq_push_all N cs (sq_push N c b)"

subsection \<open>The crypto facade\<close>

text \<open>
  Modelled from the spec: \<^verbatim>\<open>crypto.h\<close> is not among the sources. The queue borrows a
  \<^verbatim>\<open>crypto::Crypto\<close> and calls two of its operations, which the spec treats as opaque:
  \<^verbatim>\<open>cmac_fill(ptr, len, flag, out)\<close> emits the bytes of an authentication tag of the range
  into the buffer \<open>out\<close>, and \<^verbatim>\<open>encrypt_decrypt(ptr, len)\<close> transforms the range in place.
  Both are parameters here: \<open>cmac_fill\<close> gives the tag bytes that are pushed,
  \<open>encrypt_decrypt\<close> the new contents of the range.
\<close>

record Crypto =
  cmac_fill :: "uint8_t list \<Rightarrow> bool \<Rightarrow> uint8_t list"
  encrypt_decrypt :: "uint8_t list \<Rightarrow> uint8_t list"

subsection \<open>Slots and the queue\<close>

record Item =
  addr :: int8_t
  packet :: ShortQ
  time :: time_t

text \<open>\<^verbatim>\<open>Item::clear\<close>.\<close>

definition Item_clear :: "Item \<Rightarrow> Item" where
  "Item_clear it = it\<lparr>addr := -1, time := 0, packet := sq_clear (packet it)\<rparr>"

text \<open>A default-constructed \<^verbatim>\<open>Item\<close>: \<^verbatim>\<open>addr = -1\<close>, an empty packet, \<^verbatim>\<open>time = 0\<close>.\<close>

definition Item_init :: Item where
  "Item_init = \<lparr>addr = -1, packet = [], time = 0\<rparr>"

text \<open>
  \<^verbatim>\<open>PacketQ\<close>. The array \<^verbatim>\<open>que[PACKET_QUEUE_LEN]\<close> is the function \<open>que\<close> read at the
  indices \<open>0 .. 31\<close> (the loops visit no other index); the pointer \<^verbatim>\<open>sending\<close> is the
  index of the slot it points to, \<open>None\<close> for \<^verbatim>\<open>nullptr\<close>. The borrowed crypto object is
  passed to the one operation that uses it. The logging calls (\<^verbatim>\<open>DBG\<close>, \<^verbatim>\<open>ERR\<close>,
  \<^verbatim>\<open>hex_dump\<close>) do not touch the queue and are left out.
\<close>

record PacketQ =
  que :: "nat \<Rightarrow> Item"
  sending :: "nat option"
  prologue :: ShortQ
  cmac :: ShortQ
  packet_max_age :: time_t

definition PacketQ_init :: "time_t \<Rightarrow> PacketQ" where
  "PacketQ_init max_age =
     \<lparr>que = (\<lambda>_. Item_init), sending = None, prologue = [], cmac = [],
      packet_max_age = max_age\<rparr>"

subsection \<open>\<^verbatim>\<open>want_to_send_for\<close>\<close>

text \<open>
  The body of the rule-2 branch: the slot \<open>ri\<close> is bound to \<open>a\<close>, stamped with
  \<open>curtime\<close>, its packet is cleared and, for a non-sync address, starts with \<open>a\<close>.
\<close>

definition claim_slot :: "uint8_t \<Rightarrow> time_t \<Rightarrow> Item \<Rightarrow> Item" where
  "claim_slot a curtime it =
     (let it1 = it\<lparr>addr := a\<rparr>;
          it2 = it1\<lparr>time := curtime\<rparr>;
          it3 = it2\<lparr>packet := sq_clear (packet it2)\<rparr>
      in if uint a \<noteq> SYNC_ADDR
         then it3\<lparr>packet := sq_push SENT_PACKET_LEN a (packet it3)\<rparr>
         else it3)"

text \<open>
  The loop of \<^verbatim>\<open>want_to_send_for\<close> from iteration \<open>i\<close> on. The result is the index of
  the slot whose packet buffer is returned (\<open>None\<close> for \<^verbatim>\<open>nullptr\<close>) and the new state.
\<close>

function want_loop :: "nat \<Rightarrow> uint8_t \<Rightarrow> uint8_t \<Rightarrow> time_t \<Rightarrow> PacketQ \<Rightarrow> nat option \<times> PacketQ" where
  "want_loop i a bytes curtime q =
     (if i < PACKET_QUEUE_LEN then
        (let ri = PACKET_QUEUE_LEN - 1 - i;
             it = que q ri
         in if (uint a \<noteq> SYNC_ADDR \<and> sint (addr it) = uint a)
               \<and> unat bytes < sq_free_size SENT_PACKET_LEN (packet it)
            then (Some ri, q)
            else if sint (addr it) = -1 \<or> time it + packet_max_age q < curtime
            then (Some ri, q\<lparr>que := (que q)(ri := claim_slot a curtime it)\<rparr>)
            else want_loop (i + 1) a bytes curtime q)
      else (None, q))"
  by pat_completeness auto

termination
  by (relation "measure (\<lambda>(i, a, bytes, curtime, q). PACKET_QUEUE_LEN - i)") auto

declare want_loop.simps [simp del]

definition want_to_send_for :: "uint8_t \<Rightarrow> uint8_t \<Rightarrow> time_t \<Rightarrow> PacketQ \<Rightarrow> nat option \<times> PacketQ" where
  "want_to_send_for a bytes curtime q = want_loop 0 a bytes curtime q"

subsection \<open>\<^verbatim>\<open>prepare_to_send_to\<close>\<close>

text \<open>
  The body run on the first matching slot \<open>i\<close>: freeze it, fill the MAC buffer from the
  packet as it is, build the prologue, add the two dummy bytes, then encrypt the packet
  in place unless it is a sync packet.
\<close>

definition freeze_slot :: "Crypto \<Rightarrow> nat \<Rightarrow> PacketQ \<Rightarrow> PacketQ" where
  "freeze_slot cr i q =
     (let it = que q i;
          q1 = q\<lparr>sending := Some i\<rparr>;
          isSync = (sint (addr it) = SYNC_ADDR);
          it1 = it\<lparr>addr := -2\<rparr>;
          c1 = sq_clear (cmac q1);
          c2 = sq_push_all 6 (cmac_fill cr (sq_data (packet it1)) False) c1;
          p1 = sq_clear (prologue q1);
          p2 = sq_push 5 0xAA p1;
          p3 = sq_push 5 0xAA p2;
          p4 = sq_push 5 0x2D p3;
          p5 = sq_push 5 0xD4 p4;
          p6 = sq_push 5
                 (word_of_int ((int (sq_size (packet it1)) + int (sq_size c2))
                               OR (if isSync then 0x80 else 0x00))) p5;
          c3 = sq_push 6 0xAA c2;
          c4 = sq_push 6 0xAA c3;
          it2 = (if \<not> isSync
                 then it1\<lparr>packet := encrypt_decrypt cr (sq_data (packet it1))\<rparr>
                 else it1)
      in q1\<lparr>que := (que q1)(i := it2), prologue := p6, cmac := c4\<rparr>)"

function prepare_loop :: "Crypto \<Rightarrow> nat \<Rightarrow> uint8_t \<Rightarrow> PacketQ \<Rightarrow> bool \<times> PacketQ" where
  "prepare_loop cr i a q =
     (if i < PACKET_QUEUE_LEN then
        (if sint (addr (que q i)) = uint a
         then (True, freeze_slot cr i q)
         else prepare_loop cr (i + 1) a q)
      else (False, q))"
  by pat_completeness auto

termination
  by (relation "measure (\<lambda>(cr, i, a, q). PACKET_QUEUE_LEN - i)") auto

declare prepare_loop.simps [simp del]

definition prepare_to_send_to :: "Crypto \<Rightarrow> uint8_t \<Rightarrow> PacketQ \<Rightarrow> bool \<times> PacketQ" where
  "prepare_to_send_to cr a q =
     (if sending q \<noteq> None then (False, q) else prepare_loop cr 0 a q)"

subsection \<open>\<^verbatim>\<open>peek\<close> and \<^verbatim>\<open>pop\<close>\<close>

text \<open>
  Each \<^verbatim>\<open>if (!b.empty()) return b.peek();\<close> is one case on \<open>sq_peek b\<close>, which is
  \<open>None\<close> exactly when \<open>b\<close> is empty; the byte is returned as an \<^verbatim>\<open>int\<close> in \<open>0 .. 255\<close>.
\<close>

definition peek :: "PacketQ \<Rightarrow> int" where
  "peek q =
     (case sending q of
        None \<Rightarrow> -1
      | Some s \<Rightarrow>
          (case sq_peek (prologue q) of
             Some c \<Rightarrow> uint c
           | None \<Rightarrow>
               (case sq_peek (packet (que q s)) of
                  Some c \<Rightarrow> uint c
                | None \<Rightarrow>
                    (case sq_peek (cmac q) of
                       Some c \<Rightarrow> uint c
                     | None \<Rightarrow> -1))))"

text \<open>
  \<^verbatim>\<open>pop\<close>: likewise one case on \<open>sq_pop\<close> per guarded \<^verbatim>\<open>pop()\<close>. On the last branch the
  MAC buffer is popped if it is not empty, and the frame ends when it is empty then.
\<close>

definition pop :: "PacketQ \<Rightarrow> bool \<times> PacketQ" where
  "pop q =
     (case sending q of
        None \<Rightarrow> (False, q)
      | Some s \<Rightarrow>
          (case sq_pop (prologue q) of
             Some p' \<Rightarrow> (True, q\<lparr>prologue := p'\<rparr>)
           | None \<Rightarrow>
               (case sq_pop (packet (que q s)) of
                  Some d' \<Rightarrow> (True, q\<lparr>que := (que q)(s := (que q s)\<lparr>packet := d'\<rparr>)\<rparr>)
                | None \<Rightarrow>
                    (let c' = (case sq_pop (cmac q) of Some c \<Rightarrow> c | None \<Rightarrow> cmac q)
                     in if sq_empty c'
                        then (False,
                              q\<lparr>prologue := sq_clear (prologue q),
                                que := (que q)(s := Item_clear (que q s)),
                                cmac := sq_clear c',
                                sending := None\<rparr>)
                        else (True, q\<lparr>cmac := c'\<rparr>)))))"

subsection \<open>Draining a frame\<close>

text \<open>
  The consumer's use of the two operations: \<^verbatim>\<open>peek\<close>, then \<^verbatim>\<open>pop\<close>, again until
  \<^verbatim>\<open>pop\<close> returns false. The result is the list of the values \<^verbatim>\<open>peek\<close> returned and
  the state after the \<^verbatim>\<open>pop\<close> that returned false. Every \<^verbatim>\<open>pop\<close> that returns true
  has taken one byte off the frame in flight, whose size \<open>frame_left\<close> measures, so the
  loop ends.
\<close>

definition frame_left :: "PacketQ \<Rightarrow> nat" where
  "frame_left q =
     (case sending q of
        None \<Rightarrow> 0
      | Some s \<Rightarrow> length (prologue q) + length (packet (que q s)) + length (cmac q))"

function drain :: "PacketQ \<Rightarrow> int list \<times> PacketQ" where
  "drain q =
     (let b = peek q;
          r = pop q
      in if fst r
         then (let d = drain (snd r) in (b # fst d, snd d))
         else ([b], snd r))"
  by pat_completeness auto

termination
  by (relation "measure frame_left")
     (auto simp: pop_def frame_left_def sq_pop_def sq_empty_def sq_clear_def Let_def
           split: option.splits list.splits if_splits)

declare drain.simps [simp del]

subsection \<open>The states the queue can be in\<close>

text \<open>
  The states reached from a fresh queue by calls of \<^verbatim>\<open>want_to_send_for\<close>,
  \<^verbatim>\<open>prepare_to_send_to\<close> and \<^verbatim>\<open>pop\<close> (\<^verbatim>\<open>peek\<close> changes nothing), and by the caller
  pushing a byte into the packet buffer of a slot, which is what it does with the
  buffer \<^verbatim>\<open>want_to_send_for\<close> returned.
\<close>

definition push_payload :: "nat \<Rightarrow> uint8_t \<Rightarrow> PacketQ \<Rightarrow> PacketQ" where
  "push_payload i c q =
     q\<lparr>que := (que q)(i := (que q i)\<lparr>packet := sq_push SENT_PACKET_LEN c (packet (que q i))\<rparr>)\<rparr>"

inductive reachable :: "Crypto \<Rightarrow> time_t \<Rightarrow> PacketQ \<Rightarrow> bool" for cr :: Crypto and max_age :: time_t where
  r_init: "reachable cr max_age (PacketQ_init max_age)"
| r_want: "reachable cr max_age q \<Longrightarrow> reachable cr max_age (snd (want_to_send_for a bytes curtime q))"
| r_push: "reachable cr max_age q \<Longrightarrow> i < PACKET_QUEUE_LEN \<Longrightarrow> reachable cr max_age (push_payload i c q)"
| r_prepare: "reachable cr max_age q \<Longrightarrow> reachable cr max_age (snd (prepare_to_send_to cr a q))"
| r_pop: "reachable cr max_age q \<Longrightarrow> reachable cr max_age (snd (pop q))"

subsection \<open>The conditions the statements are about\<close>

text \<open>
  The two tests the loop makes on a slot. \<open>coalesces\<close> is the condition under which the
  slot's buffer is returned for appending (rule 1), \<open>claimable\<close> the condition under
  which the slot is taken over (rule 2), tried only when rule 1 did not return.
\<close>

definition coalesces :: "uint8_t \<Rightarrow> uint8_t \<Rightarrow> Item \<Rightarrow> bool" where
  "coalesces a bytes it \<longleftrightarrow>
     (uint a \<noteq> SYNC_ADDR \<and> sint (addr it) = uint a)
     \<and> unat bytes < sq_free_size SENT_PACKET_LEN (packet it)"

definition claimable :: "time_t \<Rightarrow> time_t \<Rightarrow> Item \<Rightarrow> bool" where
  "claimable max_age curtime it \<longleftrightarrow> sint (addr it) = -1 \<or> time it + max_age < curtime"

definition passed_over :: "uint8_t \<Rightarrow> uint8_t \<Rightarrow> time_t \<Rightarrow> PacketQ \<Rightarrow> nat \<Rightarrow> bool" where
  "passed_over a bytes curtime q j \<longleftrightarrow>
     \<not> coalesces a bytes (que q j) \<and> \<not> claimable (packet_max_age q) curtime (que q j)"

text \<open>The bytes of the frame in flight that are still to be sent, in the order they are served.\<close>

definition frame_bytes :: "PacketQ \<Rightarrow> nat \<Rightarrow> uint8_t list" where
  "frame_bytes q s = prologue q @ packet (que q s) @ cmac q"

text \<open>
  The invariant of the spec's slot table: the slots that are neither free nor frozen and
  not bound to \<open>SYNC_ADDR\<close> are bound to pairwise distinct addresses.
\<close>

definition open_slot :: "Item \<Rightarrow> bool" where
  "open_slot it \<longleftrightarrow> sint (addr it) \<noteq> -1 \<and> sint (addr it) \<noteq> -2"

definition distinct_open :: "PacketQ \<Rightarrow> bool" where
  "distinct_open q \<longleftrightarrow>
     (\<forall>i \<in> {0 ..< PACKET_QUEUE_LEN}. \<forall>j \<in> {0 ..< PACKET_QUEUE_LEN}.
        i \<noteq> j \<and> open_slot (que q i) \<and> open_slot (que q j)
        \<and> sint (addr (que q i)) \<noteq> SYNC_ADDR
        \<longrightarrow> addr (que q i) \<noteq> addr (que q j))"

text \<open>
  Every slot that is open, not bound to \<open>SYNC_ADDR\<close> and not the one in flight holds a
  packet whose first byte is the slot's address.
\<close>

definition head_ok :: "PacketQ \<Rightarrow> bool" where
  "head_ok q \<longleftrightarrow>
     (\<forall>i \<in> {0 ..< PACKET_QUEUE_LEN}.
        sending q \<noteq> Some i \<and> open_slot (que q i) \<and> sint (addr (que q i)) \<noteq> SYNC_ADDR
        \<longrightarrow> sq_peek (packet (que q i)) = Some (addr (que q i)))"


subsection \<open>A mock crypto and the states of the examples\<close>

text \<open>
  The mock of the spec's scenario 6: the tag is the sum of the bytes in four
  little-endian bytes, the cipher is XOR with \<open>0xFF\<close>.
\<close>

definition byte_sum :: "uint8_t list \<Rightarrow> 32 word" where
  "byte_sum xs = sum_list (map ucast xs)"

definition mock_crypto :: Crypto where
  "mock_crypto =
     \<lparr>cmac_fill = (\<lambda>xs _. [ucast (byte_sum xs), ucast (drop_bit 8 (byte_sum xs)),
                           ucast (drop_bit 16 (byte_sum xs)), ucast (drop_bit 24 (byte_sum xs))]),
      encrypt_decrypt = map (\<lambda>c. c XOR 0xFF)\<rparr>"

text \<open>A fresh queue with \<open>packet_max_age = 60\<close> after \<^verbatim>\<open>want_to_send_for(5, 3, 0)\<close>.\<close>

definition ex_open5 :: PacketQ where
  "ex_open5 = snd (want_to_send_for 5 3 0 (PacketQ_init 60))"

text \<open>Then \<^verbatim>\<open>prepare_to_send_to(5)\<close>: slot 31 is frozen.\<close>

definition ex_frozen5 :: PacketQ where
  "ex_frozen5 = snd (prepare_to_send_to mock_crypto 5 ex_open5)"

text \<open>
  A fresh queue after \<^verbatim>\<open>want_to_send_for(7, 1, 0)\<close> and \<^verbatim>\<open>want_to_send_for(5, 1, 0)\<close>
  (slot 31 is bound to 7, slot 30 to 5), then after \<^verbatim>\<open>prepare_to_send_to(7)\<close>, then
  after the frame of slot 31 has been drained.
\<close>

definition ex_two :: PacketQ where
  "ex_two = snd (want_to_send_for 5 1 0 (snd (want_to_send_for 7 1 0 (PacketQ_init 60))))"

definition ex_two_frozen :: PacketQ where
  "ex_two_frozen = snd (prepare_to_send_to mock_crypto 7 ex_two)"

definition ex_two_drained :: PacketQ where
  "ex_two_drained = snd (drain ex_two_frozen)"

text \<open>The state \<open>ex_frozen5\<close> after \<^verbatim>\<open>want_to_send_for(9, 1, 61)\<close>.\<close>

definition ex_reclaimed :: PacketQ where
  "ex_reclaimed = snd (want_to_send_for 9 1 61 ex_frozen5)"

text \<open>The state \<open>ex_open5\<close> after \<^verbatim>\<open>want_to_send_for(5, 75, 0)\<close>.\<close>

definition ex_twice5 :: PacketQ where
  "ex_twice5 = snd (want_to_send_for 5 75 0 ex_open5)"

text \<open>
  The spec's scenario 1 up to the freeze: \<^verbatim>\<open>want_to_send_for(5, 3, 0)\<close>, the caller
  pushes \<open>11 22 33\<close>, \<^verbatim>\<open>want_to_send_for(5, 2, 1)\<close>, the caller pushes \<open>44 55\<close>.
\<close>

definition ex_scenario1 :: PacketQ where
  "ex_scenario1 =
     push_payload 31 0x55 (push_payload 31 0x44
       (snd (want_to_send_for 5 2 1
          (push_payload 31 0x33 (push_payload 31 0x22 (push_payload 31 0x11 ex_open5))))))"

section \<open>Properties of the model\<close>

subsection \<open>Machine integers\<close>

lemma sentinel_never_matches:
  "sint (x :: int8_t) = -1 \<or> sint x = -2 \<Longrightarrow> sint x \<noteq> uint (a :: uint8_t)"
proof -
  have "0 \<le> uint a" by simp
  then show "sint x = -1 \<or> sint x = -2 \<Longrightarrow> sint x \<noteq> uint a" by linarith
qed

lemma low_bits_or_exp:
  "((w :: 'a::len word) OR 2 ^ n) AND mask n = w AND mask n"
  by (rule bit_word_eqI) (auto simp: bit_and_iff bit_or_iff bit_mask_iff bit_exp_iff)

lemma unat_low_bits:
  assumes "k < 2 ^ n" and "n \<le> LENGTH('a)"
  shows "unat ((word_of_nat k :: 'a::len word) AND mask n) = k"
proof -
  have "k < 2 ^ LENGTH('a)"
    using assms by (meson le_less_trans not_less power_increasing_iff one_less_numeral_iff semiring_norm(76) less_le_trans)
  then have "unat (word_of_nat k :: 'a word) = k"
    by (simp add: unat_of_nat)
  moreover have "unat ((word_of_nat k :: 'a word) AND mask n) = take_bit n (unat (word_of_nat k :: 'a word))"
    by (simp add: unsigned_take_bit_eq flip: take_bit_eq_mask)
  moreover have "take_bit n k = k"
    using assms(1) by (simp add: take_bit_nat_eq_self)
  ultimately show ?thesis by simp
qed

lemma high_bit_small:
  assumes "k < 2 ^ n"
  shows "\<not> bit (word_of_nat k :: 'a::len word) n"
proof -
  have "\<not> bit k n"
    using assms by (simp add: bit_iff_odd)
  then show ?thesis
    by (simp add: bit_of_nat_iff)
qed

lemma length_byte:
  fixes L :: uint8_t
  assumes "n + m < 128"
    and "L = word_of_int ((int n + int m) OR (if sync then 0x80 else 0x00))"
  shows "unat (L AND 0x7F) = n + m \<and> (bit L 7 \<longleftrightarrow> sync)"
proof -
  have k: "n + m < 2 ^ 7" using assms(1) by simp
  have c: "(0x80 :: uint8_t) = 2 ^ 7" "(0x7F :: uint8_t) = mask 7"
    by (simp_all add: mask_eq_exp_minus_1)
  have "L = word_of_int (int n + int m) OR word_of_int (if sync then 0x80 else 0x00)"
    by (simp only: assms(2) of_int_or_eq)
  moreover have "(word_of_int (int n + int m) :: uint8_t) = word_of_nat (n + m)"
    by simp
  moreover have "(word_of_int (if sync then 0x80 else 0x00) :: uint8_t) = (if sync then 2 ^ 7 else 0)"
    by simp
  ultimately have L: "L = word_of_nat (n + m) OR (if sync then 2 ^ 7 else 0)"
    by (simp only:)
  have "L AND mask 7 = word_of_nat (n + m) AND mask 7"
    using low_bits_or_exp [of "word_of_nat (n + m) :: uint8_t" 7] by (simp add: L)
  then have "unat (L AND mask 7) = n + m"
    using unat_low_bits [OF k, where 'a = 8] by simp
  moreover have "bit L 7 \<longleftrightarrow> sync"
    using high_bit_small [OF k, where 'a = 8]
    by (simp only: L bit_or_iff bit_exp_iff split: if_splits) (simp add: bit_exp_iff)
  ultimately show ?thesis by (simp only: c)
qed

lemma sint_small:
  assumes "uint (a :: uint8_t) \<le> 127"
  shows "sint a = uint a"
proof -
  have "sint a = signed_take_bit 7 (uint a)"
    by (simp add: sint_uint)
  also have "\<dots> = uint a"
  proof (rule signed_take_bit_int_eq_self)
    have "(- (2 ^ 7) :: int) \<le> 0" by simp
    also have "0 \<le> uint a" by simp
    finally show "- (2 ^ 7) \<le> uint a" .
    from assms show "uint a < 2 ^ 7" by simp
  qed
  finally show ?thesis .
qed

lemma sint_large:
  assumes "128 \<le> uint (a :: uint8_t)"
  shows "sint a < 0"
proof -
  have "sint a = signed_take_bit 7 (uint a)"
    by (simp add: sint_uint)
  also have "\<dots> \<le> uint a - 2 ^ Suc 7"
    using assms by (intro signed_take_bit_int_less_eq) simp
  also have "\<dots> < 0"
    using uint_lt2p [of a] by simp
  finally show ?thesis .
qed

lemma sint_eq_uint_same:
  assumes "sint (x :: int8_t) = uint (a :: uint8_t)"
  shows "x = a"
proof -
  have "0 \<le> sint x"
    by (simp add: assms)
  then have "uint x \<le> 127"
    using sint_large [of x] by linarith
  then have "uint x = uint a"
    using assms by (simp add: sint_small)
  then show ?thesis by (rule word_uint_eqI)
qed

lemma sint_sync_iff:
  "sint (a :: uint8_t) = SYNC_ADDR \<longleftrightarrow> uint a = SYNC_ADDR"
proof
  assume s: "sint a = SYNC_ADDR"
  then have "0 \<le> sint a" by (simp add: SYNC_ADDR_def)
  then have "uint a \<le> 127"
    using sint_large [of a] by linarith
  with s show "uint a = SYNC_ADDR" by (simp add: sint_small)
next
  assume "uint a = SYNC_ADDR"
  then have "uint a \<le> 127" by (simp add: SYNC_ADDR_def)
  then have "sint a = uint a" by (rule sint_small)
  with \<open>uint a = SYNC_ADDR\<close> show "sint a = SYNC_ADDR" by simp
qed


subsection \<open>The byte buffer\<close>

lemma sq_peek_push_all:
  "sq_peek (sq_push_all N bs (c # xs)) = Some c"
proof (induction bs arbitrary: xs)
  case Nil
  show ?case by (simp add: sq_peek_def)
next
  case (Cons b bs)
  have "sq_push N b (c # xs) = c # xs \<or> sq_push N b (c # xs) = c # (xs @ [b])"
    by (simp add: sq_push_def)
  with Cons.IH show ?case by auto
qed

lemma sq_push_all_append:
  "sq_push_all N (xs @ ys) b = sq_push_all N ys (sq_push_all N xs b)"
  by (induction xs arbitrary: b) simp_all

lemma sq_push_all_take:
  "length b \<le> N \<Longrightarrow> sq_push_all N cs b = take N (b @ cs)"
proof (induction cs arbitrary: b)
  case Nil
  then show ?case by simp
next
  case (Cons c cs)
  show ?case
  proof (cases "length b < N")
    case True
    then have p: "sq_push N c b = b @ [c]"
      by (simp add: sq_push_def sq_free_size_def)
    have "sq_push_all N cs (b @ [c]) = take N ((b @ [c]) @ cs)"
      using True by (intro Cons.IH) simp
    then show ?thesis by (simp add: p)
  next
    case False
    with Cons.prems have l: "length b = N" by simp
    then have p: "sq_push N c b = b"
      by (simp add: sq_push_def sq_free_size_def)
    have "sq_push_all N cs b = take N (b @ cs)"
      using Cons.prems by (rule Cons.IH)
    then show ?thesis by (simp add: p l)
  qed
qed

subsection \<open>The scan of \<^verbatim>\<open>want_to_send_for\<close>\<close>

lemma want_loop_step:
  "i < PACKET_QUEUE_LEN \<Longrightarrow>
   want_loop i a bytes curtime q =
     (if coalesces a bytes (que q (PACKET_QUEUE_LEN - 1 - i)) then (Some (PACKET_QUEUE_LEN - 1 - i), q)
      else if claimable (packet_max_age q) curtime (que q (PACKET_QUEUE_LEN - 1 - i))
      then (Some (PACKET_QUEUE_LEN - 1 - i),
            q\<lparr>que := (que q)(PACKET_QUEUE_LEN - 1 - i :=
                  claim_slot a curtime (que q (PACKET_QUEUE_LEN - 1 - i)))\<rparr>)
      else want_loop (i + 1) a bytes curtime q)"
  by (subst want_loop.simps) (simp add: coalesces_def claimable_def Let_def)

lemma want_loop_end:
  "\<not> i < PACKET_QUEUE_LEN \<Longrightarrow> want_loop i a bytes curtime q = (None, q)"
  by (subst want_loop.simps) simp

text \<open>Slots that fail both tests are skipped.\<close>

lemma want_loop_skip:
  "i \<le> k \<Longrightarrow> k \<le> PACKET_QUEUE_LEN \<Longrightarrow>
   (\<forall>m. i \<le> m \<and> m < k \<longrightarrow> passed_over a bytes curtime q (PACKET_QUEUE_LEN - 1 - m)) \<Longrightarrow>
   want_loop i a bytes curtime q = want_loop k a bytes curtime q"
proof (induction "k - i" arbitrary: i)
  case 0
  then show ?case by simp
next
  case (Suc n)
  then have lt: "i < k" "i < PACKET_QUEUE_LEN" by linarith+
  with Suc.prems have "passed_over a bytes curtime q (PACKET_QUEUE_LEN - 1 - i)"
    by simp
  with lt have "want_loop i a bytes curtime q = want_loop (i + 1) a bytes curtime q"
    by (simp add: want_loop_step passed_over_def)
  also have "\<dots> = want_loop k a bytes curtime q"
    using Suc.hyps Suc.prems lt by (intro Suc.hyps(1)) auto
  finally show ?case .
qed

text \<open>
  The slot the scan stops at, by index: every slot of a higher index was passed over,
  and the slot itself passes one of the two tests.
\<close>

lemma want_loop_at:
  assumes "s < PACKET_QUEUE_LEN"
    and "\<forall>j. s < j \<and> j < PACKET_QUEUE_LEN \<longrightarrow> passed_over a bytes curtime q j"
  shows "want_to_send_for a bytes curtime q =
           (if coalesces a bytes (que q s) then (Some s, q)
            else if claimable (packet_max_age q) curtime (que q s)
            then (Some s, q\<lparr>que := (que q)(s := claim_slot a curtime (que q s))\<rparr>)
            else want_loop (PACKET_QUEUE_LEN - s) a bytes curtime q)"
proof -
  let ?k = "PACKET_QUEUE_LEN - 1 - s"
  have k: "?k < PACKET_QUEUE_LEN" "PACKET_QUEUE_LEN - 1 - ?k = s" "?k + 1 = PACKET_QUEUE_LEN - s"
    using assms(1) by auto
  have "\<forall>m. 0 \<le> m \<and> m < ?k \<longrightarrow> passed_over a bytes curtime q (PACKET_QUEUE_LEN - 1 - m)"
    using assms by auto
  then have "want_loop 0 a bytes curtime q = want_loop ?k a bytes curtime q"
    by (intro want_loop_skip) auto
  then show ?thesis
    unfolding want_to_send_for_def using k by (simp add: want_loop_step)
qed

text \<open>What a returned slot tells about the scan.\<close>

lemma want_loop_Some:
  "want_loop i a bytes curtime q = (Some s, q') \<Longrightarrow>
     s < PACKET_QUEUE_LEN \<and> s + i < PACKET_QUEUE_LEN
     \<and> (\<forall>j. s < j \<and> j + i < PACKET_QUEUE_LEN \<longrightarrow> passed_over a bytes curtime q j)
     \<and> (if coalesces a bytes (que q s) then q' = q
         else claimable (packet_max_age q) curtime (que q s)
              \<and> q' = q\<lparr>que := (que q)(s := claim_slot a curtime (que q s))\<rparr>)"
proof (induction "PACKET_QUEUE_LEN - i" arbitrary: i)
  case 0
  then show ?case by (simp add: want_loop_end)
next
  case (Suc n)
  then have lt: "i < PACKET_QUEUE_LEN" by linarith
  let ?ri = "PACKET_QUEUE_LEN - 1 - i"
  show ?case
  proof (cases "passed_over a bytes curtime q ?ri")
    case True
    with lt Suc.prems have rec: "want_loop (i + 1) a bytes curtime q = (Some s, q')"
      by (simp add: want_loop_step passed_over_def)
    have "n = PACKET_QUEUE_LEN - (i + 1)"
      using Suc.hyps(2) by linarith
    from Suc.hyps(1) [OF this rec]
    have IH: "s < PACKET_QUEUE_LEN" "s + (i + 1) < PACKET_QUEUE_LEN"
      "\<forall>j. s < j \<and> j + (i + 1) < PACKET_QUEUE_LEN \<longrightarrow> passed_over a bytes curtime q j"
      "if coalesces a bytes (que q s) then q' = q
       else claimable (packet_max_age q) curtime (que q s)
            \<and> q' = q\<lparr>que := (que q)(s := claim_slot a curtime (que q s))\<rparr>"
      by blast+
    have "passed_over a bytes curtime q j"
      if "s < j" "j + i < PACKET_QUEUE_LEN" for j
    proof (cases "j + (i + 1) < PACKET_QUEUE_LEN")
      case True
      with IH(3) that show ?thesis by blast
    next
      case False
      with that have "j = ?ri" by linarith
      with \<open>passed_over a bytes curtime q ?ri\<close> show ?thesis by simp
    qed
    with IH show ?thesis by simp
  next
    case False
    with lt Suc.prems have "s = ?ri"
      by (auto simp: want_loop_step passed_over_def split: if_splits)
    with lt Suc.prems False show ?thesis
      by (auto simp: want_loop_step passed_over_def split: if_splits)
  qed
qed

lemma want_loop_None:
  "want_loop i a bytes curtime q = (None, q') \<Longrightarrow> q' = q"
proof (induction "PACKET_QUEUE_LEN - i" arbitrary: i)
  case 0
  then show ?case by (simp add: want_loop_end)
next
  case (Suc n)
  then have lt: "i < PACKET_QUEUE_LEN" by linarith
  with Suc.prems have rec: "want_loop (i + 1) a bytes curtime q = (None, q')"
    by (auto simp: want_loop_step split: if_splits)
  have "n = PACKET_QUEUE_LEN - (i + 1)"
    using Suc.hyps(2) by linarith
  from Suc.hyps(1) [OF this rec] show ?case .
qed

lemma claim_slot_eq:
  "claim_slot a curtime it =
     \<lparr>addr = a, packet = (if uint a \<noteq> SYNC_ADDR then [a] else []), time = curtime\<rparr>"
  by (simp add: claim_slot_def sq_clear_def sq_push_def sq_free_size_def SENT_PACKET_LEN_def Let_def)

lemma want_result:
  "want_to_send_for a bytes curtime q = (r, q') \<Longrightarrow>
   q' = q \<or> (\<exists>s < PACKET_QUEUE_LEN. r = Some s
              \<and> q' = q\<lparr>que := (que q)(s := claim_slot a curtime (que q s))\<rparr>)"
proof (cases r)
  case None
  assume "want_to_send_for a bytes curtime q = (r, q')"
  with None show ?thesis by (simp add: want_to_send_for_def want_loop_None)
next
  case (Some s)
  assume "want_to_send_for a bytes curtime q = (r, q')"
  with Some have "want_loop 0 a bytes curtime q = (Some s, q')"
    by (simp add: want_to_send_for_def)
  from want_loop_Some [OF this] Some show ?thesis
    by (auto split: if_splits)
qed

lemma want_keeps_frame:
  "sending (snd (want_to_send_for a bytes curtime q)) = sending q
   \<and> cmac (snd (want_to_send_for a bytes curtime q)) = cmac q
   \<and> prologue (snd (want_to_send_for a bytes curtime q)) = prologue q
   \<and> packet_max_age (snd (want_to_send_for a bytes curtime q)) = packet_max_age q"
proof -
  obtain r q' where w: "want_loop 0 a bytes curtime q = (r, q')"
    by (cases "want_loop 0 a bytes curtime q")
  have "q' = q \<or> (\<exists>s it. q' = q\<lparr>que := (que q)(s := it)\<rparr>)"
  proof (cases r)
    case None
    with w show ?thesis by (simp add: want_loop_None)
  next
    case (Some s)
    from want_loop_Some [OF w [unfolded Some]] show ?thesis
      by (auto split: if_splits)
  qed
  with w show ?thesis by (auto simp: want_to_send_for_def)
qed

text \<open>
  What does hold of a frozen slot: rule 1 never returns it, and a call leaves it as it
  is unless the slot is stale.
\<close>

lemma frozen_fresh_slot_untouched:
  assumes "sint (addr (que q j)) = -2"
    and "\<not> time (que q j) + packet_max_age q < curtime"
  shows "fst (want_to_send_for a bytes curtime q) \<noteq> Some j
         \<and> que (snd (want_to_send_for a bytes curtime q)) j = que q j"
proof -
  have "sint (addr (que q j)) \<noteq> uint a"
    using sentinel_never_matches [of "addr (que q j)" a] assms(1) by simp
  with assms have po: "passed_over a bytes curtime q j"
    by (simp add: passed_over_def coalesces_def claimable_def)
  obtain r q' where w: "want_loop 0 a bytes curtime q = (r, q')"
    by (cases "want_loop 0 a bytes curtime q")
  show ?thesis
  proof (cases r)
    case None
    with w have "q' = q" by (simp add: want_loop_None)
    with w None show ?thesis by (simp add: want_to_send_for_def)
  next
    case (Some s)
    from want_loop_Some [OF w [unfolded Some]] po have "s \<noteq> j"
      by (auto simp: passed_over_def split: if_splits)
    moreover from want_loop_Some [OF w [unfolded Some]]
    have "q' = q \<or> q' = q\<lparr>que := (que q)(s := claim_slot a curtime (que q s))\<rparr>"
      by (auto split: if_splits)
    ultimately show ?thesis
      using w Some by (auto simp: want_to_send_for_def)
  qed
qed

subsection \<open>The scan and the freeze of \<^verbatim>\<open>prepare_to_send_to\<close>\<close>

lemma prepare_loop_True:
  "prepare_loop cr i a q = (True, q') \<Longrightarrow>
     \<exists>s. i \<le> s \<and> s < PACKET_QUEUE_LEN \<and> sint (addr (que q s)) = uint a
         \<and> (\<forall>j. i \<le> j \<and> j < s \<longrightarrow> sint (addr (que q j)) \<noteq> uint a)
         \<and> q' = freeze_slot cr s q"
proof (induction cr i a q rule: prepare_loop.induct)
  case (1 cr i a q)
  show ?case
  proof (cases "i < PACKET_QUEUE_LEN \<and> sint (addr (que q i)) \<noteq> uint a")
    case True
    with "1.prems" have "prepare_loop cr (i + 1) a q = (True, q')"
      by (simp add: prepare_loop.simps [of cr i])
    with "1.IH" True obtain s where s: "i + 1 \<le> s" "s < PACKET_QUEUE_LEN"
      "sint (addr (que q s)) = uint a"
      "\<forall>j. i + 1 \<le> j \<and> j < s \<longrightarrow> sint (addr (que q j)) \<noteq> uint a"
      "q' = freeze_slot cr s q"
      by blast
    have "\<forall>j. i \<le> j \<and> j < s \<longrightarrow> sint (addr (que q j)) \<noteq> uint a"
    proof (intro allI impI)
      fix j assume "i \<le> j \<and> j < s"
      then consider "j = i" | "i + 1 \<le> j \<and> j < s" by linarith
      then show "sint (addr (que q j)) \<noteq> uint a"
        using True s(4) by cases auto
    qed
    with s show ?thesis
      by (intro exI [of _ s]) simp
  next
    case False
    with "1.prems" show ?thesis
      by (intro exI [of _ i]) (auto simp: prepare_loop.simps [of cr i] split: if_splits)
  qed
qed

lemma prepare_loop_False:
  "prepare_loop cr i a q = (False, q') \<Longrightarrow> q' = q"
proof (induction cr i a q rule: prepare_loop.induct)
  case (1 cr i a q)
  then show ?case
    by (simp add: prepare_loop.simps [of cr i] split: if_splits)
qed

lemma freeze_slot_other: "j \<noteq> s \<Longrightarrow> que (freeze_slot cr s q) j = que q j"
  by (simp add: freeze_slot_def Let_def)

lemma freeze_slot_sending: "sending (freeze_slot cr s q) = Some s"
  by (simp add: freeze_slot_def Let_def)

lemma freeze_slot_cmac:
  "cmac (freeze_slot cr s q) = take 6 (cmac_fill cr (packet (que q s)) False @ [0xAA, 0xAA])"
proof -
  let ?m = "cmac_fill cr (packet (que q s)) False"
  have "cmac (freeze_slot cr s q) = sq_push_all 6 [0xAA, 0xAA] (sq_push_all 6 ?m [])"
    by (simp add: freeze_slot_def Let_def sq_clear_def sq_data_def)
  also have "\<dots> = sq_push_all 6 (?m @ [0xAA, 0xAA]) []"
    by (simp only: sq_push_all_append)
  also have "\<dots> = take 6 (?m @ [0xAA, 0xAA])"
    by (simp add: sq_push_all_take)
  finally show ?thesis .
qed

lemma freeze_slot_cmac_nonempty: "cmac (freeze_slot cr s q) \<noteq> []"
  by (simp add: freeze_slot_cmac)

lemma freeze_slot_prologue:
  "prologue (freeze_slot cr s q) =
     [0xAA, 0xAA, 0x2D, 0xD4,
      word_of_int ((int (length (packet (que q s)))
                    + int (length (take 6 (cmac_fill cr (packet (que q s)) False))))
                   OR (if sint (addr (que q s)) = SYNC_ADDR then 0x80 else 0x00))]"
  by (simp add: freeze_slot_def Let_def sq_clear_def sq_data_def sq_size_def sq_push_def
                sq_free_size_def sq_push_all_take)

lemma freeze_slot_item:
  "que (freeze_slot cr s q) s =
     \<lparr>addr = -2,
      packet = (if sint (addr (que q s)) = SYNC_ADDR then packet (que q s)
                else encrypt_decrypt cr (packet (que q s))),
      time = time (que q s)\<rparr>"
  by (simp add: freeze_slot_def Let_def sq_data_def)

lemma prepare_True:
  assumes "prepare_to_send_to cr a q = (True, q')"
  shows "\<exists>s < PACKET_QUEUE_LEN. sending q = None \<and> sint (addr (que q s)) = uint a
           \<and> (\<forall>j < s. sint (addr (que q j)) \<noteq> uint a) \<and> q' = freeze_slot cr s q"
proof -
  from assms have "sending q = None" "prepare_loop cr 0 a q = (True, q')"
    by (auto simp: prepare_to_send_to_def split: if_splits)
  with prepare_loop_True [of cr 0 a q q'] show ?thesis by auto
qed

subsection \<open>\<^verbatim>\<open>peek\<close>, \<^verbatim>\<open>pop\<close> and the drain\<close>

lemma peek_frame:
  "sending q = Some s \<Longrightarrow> frame_bytes q s = b # rest \<Longrightarrow> peek q = uint b"
  by (auto simp: peek_def frame_bytes_def sq_peek_def append_eq_Cons_conv
           split: list.splits)

text \<open>The four ways a \<^verbatim>\<open>pop\<close> goes while a frame is in flight.\<close>

lemma pop_prologue:
  "sending q = Some s \<Longrightarrow> prologue q = b # p' \<Longrightarrow> pop q = (True, q\<lparr>prologue := p'\<rparr>)"
  by (simp add: pop_def sq_pop_def)

lemma pop_packet:
  "sending q = Some s \<Longrightarrow> prologue q = [] \<Longrightarrow> packet (que q s) = b # d' \<Longrightarrow>
   pop q = (True, q\<lparr>que := (que q)(s := (que q s)\<lparr>packet := d'\<rparr>)\<rparr>)"
  by (simp add: pop_def sq_pop_def)

lemma pop_cmac:
  "sending q = Some s \<Longrightarrow> prologue q = [] \<Longrightarrow> packet (que q s) = [] \<Longrightarrow>
   cmac q = b # c' \<Longrightarrow> c' \<noteq> [] \<Longrightarrow> pop q = (True, q\<lparr>cmac := c'\<rparr>)"
  by (simp add: pop_def sq_pop_def sq_empty_def)

lemma Item_clear_eq: "Item_clear it = \<lparr>addr = -1, packet = [], time = 0\<rparr>"
  by (cases it) (simp add: Item_clear_def sq_clear_def)

lemma pop_last:
  "sending q = Some s \<Longrightarrow> prologue q = [] \<Longrightarrow> packet (que q s) = [] \<Longrightarrow>
   cmac q = [b] \<Longrightarrow>
   pop q = (False, q\<lparr>prologue := [], que := (que q)(s := \<lparr>addr = -1, packet = [], time = 0\<rparr>),
                      cmac := [], sending := None\<rparr>)"
  by (simp add: pop_def sq_pop_def sq_empty_def sq_clear_def Item_clear_eq)

text \<open>
  The drain of a frame in flight: the bytes left, in order, and then the idle state with
  slot \<open>s\<close> free.
\<close>

lemma drain_frame:
  "sending q = Some s \<Longrightarrow> cmac q \<noteq> [] \<Longrightarrow>
   drain q = (map uint (frame_bytes q s),
              q\<lparr>prologue := [], que := (que q)(s := \<lparr>addr = -1, packet = [], time = 0\<rparr>),
                cmac := [], sending := None\<rparr>)"
proof (induction "length (frame_bytes q s)" arbitrary: q)
  case 0
  then show ?case by (simp add: frame_bytes_def)
next
  case (Suc n)
  from Suc.prems(2) obtain b c' where c: "cmac q = b # c'"
    by (cases "cmac q") auto
  show ?case
  proof (cases "prologue q")
    case (Cons x p')
    let ?q = "q\<lparr>prologue := p'\<rparr>"
    have pk: "peek q = uint x"
      using peek_frame [OF Suc.prems(1), of x] Cons by (simp add: frame_bytes_def)
    have pp: "pop q = (True, ?q)"
      by (rule pop_prologue [OF Suc.prems(1) Cons])
    have "n = length (frame_bytes ?q s)"
      using Suc.hyps(2) Cons by (simp add: frame_bytes_def)
    from Suc.hyps(1) [OF this] Suc.prems
    have "drain ?q = (map uint (frame_bytes ?q s),
            ?q\<lparr>prologue := [], que := (que ?q)(s := \<lparr>addr = -1, packet = [], time = 0\<rparr>),
               cmac := [], sending := None\<rparr>)"
      by simp
    then show ?thesis
      by (subst drain.simps) (simp add: pk pp Cons frame_bytes_def)
  next
    case pn: Nil
    show ?thesis
    proof (cases "packet (que q s)")
      case (Cons x d')
      let ?q = "q\<lparr>que := (que q)(s := (que q s)\<lparr>packet := d'\<rparr>)\<rparr>"
      have pk: "peek q = uint x"
        using peek_frame [OF Suc.prems(1), of x] pn Cons by (simp add: frame_bytes_def)
      have pp: "pop q = (True, ?q)"
        by (rule pop_packet [OF Suc.prems(1) pn Cons])
      have "n = length (frame_bytes ?q s)"
        using Suc.hyps(2) pn Cons by (simp add: frame_bytes_def)
      from Suc.hyps(1) [OF this] Suc.prems
      have "drain ?q = (map uint (frame_bytes ?q s),
              ?q\<lparr>prologue := [], que := (que ?q)(s := \<lparr>addr = -1, packet = [], time = 0\<rparr>),
                 cmac := [], sending := None\<rparr>)"
        by simp
      then show ?thesis
        by (subst drain.simps) (simp add: pk pp pn Cons frame_bytes_def)
    next
      case dn: Nil
      have pk: "peek q = uint b"
        using peek_frame [OF Suc.prems(1), of b] pn dn c by (simp add: frame_bytes_def)
      show ?thesis
      proof (cases "c' = []")
        case True
        with c have "cmac q = [b]" by simp
        from pop_last [OF Suc.prems(1) pn dn this] show ?thesis
          by (subst drain.simps) (simp add: pk pn dn c True frame_bytes_def)
      next
        case False
        let ?q = "q\<lparr>cmac := c'\<rparr>"
        have pp: "pop q = (True, ?q)"
          by (rule pop_cmac [OF Suc.prems(1) pn dn c False])
        have "n = length (frame_bytes ?q s)"
          using Suc.hyps(2) pn dn c by (simp add: frame_bytes_def)
        from Suc.hyps(1) [OF this] Suc.prems False
        have "drain ?q = (map uint (frame_bytes ?q s),
                ?q\<lparr>prologue := [], que := (que ?q)(s := \<lparr>addr = -1, packet = [], time = 0\<rparr>),
                   cmac := [], sending := None\<rparr>)"
          by simp
        then show ?thesis
          by (subst drain.simps) (simp add: pk pp pn dn c frame_bytes_def)
      qed
    qed
  qed
qed

subsection \<open>What every call preserves\<close>

text \<open>
  While a frame is in flight the MAC buffer is not empty: \<^verbatim>\<open>prepare_to_send_to\<close> leaves
  the dummy bytes in it, and the \<^verbatim>\<open>pop\<close> that empties it ends the frame.
\<close>

lemma pop_keeps_cmac_nonempty:
  assumes "sending q \<noteq> None \<longrightarrow> cmac q \<noteq> []"
  shows "sending (snd (pop q)) \<noteq> None \<longrightarrow> cmac (snd (pop q)) \<noteq> []"
  using assms
  by (auto simp: pop_def sq_pop_def sq_empty_def sq_clear_def
           split: option.splits list.splits)

lemma prepare_keeps_cmac_nonempty:
  assumes "sending q \<noteq> None \<longrightarrow> cmac q \<noteq> []"
  shows "sending (snd (prepare_to_send_to cr a q)) \<noteq> None
         \<longrightarrow> cmac (snd (prepare_to_send_to cr a q)) \<noteq> []"
proof (cases "fst (prepare_to_send_to cr a q)")
  case True
  then have "prepare_to_send_to cr a q = (True, snd (prepare_to_send_to cr a q))"
    by (simp add: prod_eq_iff)
  from prepare_True [OF this] show ?thesis
    by (auto simp: freeze_slot_cmac_nonempty)
next
  case False
  then have "prepare_to_send_to cr a q = (False, snd (prepare_to_send_to cr a q))"
    by (simp add: prod_eq_iff)
  then have "snd (prepare_to_send_to cr a q) = q"
    by (auto simp: prepare_to_send_to_def dest: prepare_loop_False split: if_splits)
  with assms show ?thesis by simp
qed

lemma reachable_cmac_nonempty:
  "reachable cr max_age q \<Longrightarrow> sending q \<noteq> None \<longrightarrow> cmac q \<noteq> []"
proof (induction rule: reachable.induct)
  case r_init
  show ?case by (simp add: PacketQ_init_def)
next
  case (r_want q a bytes curtime)
  then show ?case by (simp add: want_keeps_frame)
next
  case (r_push q i c)
  then show ?case by (simp add: push_payload_def)
next
  case (r_prepare q a)
  from r_prepare.IH show ?case by (rule prepare_keeps_cmac_nonempty)
next
  case (r_pop q)
  from r_pop.IH show ?case by (rule pop_keeps_cmac_nonempty)
qed

lemma distinct_open_transfer:
  assumes "distinct_open q"
    and "\<forall>i < PACKET_QUEUE_LEN. open_slot (que q' i) \<longrightarrow> addr (que q' i) = addr (que q i)"
  shows "distinct_open q'"
  unfolding distinct_open_def
proof (intro ballI impI)
  fix i j
  assume ij: "i \<in> {0 ..< PACKET_QUEUE_LEN}" "j \<in> {0 ..< PACKET_QUEUE_LEN}"
    and h: "i \<noteq> j \<and> open_slot (que q' i) \<and> open_slot (que q' j)
            \<and> sint (addr (que q' i)) \<noteq> SYNC_ADDR"
  from ij h assms(2) have e: "addr (que q' i) = addr (que q i)" "addr (que q' j) = addr (que q j)"
    by auto
  with h have "i \<noteq> j \<and> open_slot (que q i) \<and> open_slot (que q j)
               \<and> sint (addr (que q i)) \<noteq> SYNC_ADDR"
    by (simp add: open_slot_def)
  with assms(1) ij have "addr (que q i) \<noteq> addr (que q j)"
    unfolding distinct_open_def by blast
  with e show "addr (que q' i) \<noteq> addr (que q' j)" by simp
qed

lemma pop_keeps_open_addr:
  "open_slot (que (snd (pop q)) i) \<Longrightarrow> addr (que (snd (pop q)) i) = addr (que q i)"
  by (auto simp: pop_def sq_pop_def sq_empty_def Item_clear_eq open_slot_def Let_def
           split: option.splits list.splits if_splits)

lemma prepare_keeps_open_addr:
  assumes "open_slot (que (snd (prepare_to_send_to cr a q)) i)"
  shows "addr (que (snd (prepare_to_send_to cr a q)) i) = addr (que q i)"
proof (cases "fst (prepare_to_send_to cr a q)")
  case True
  then have "prepare_to_send_to cr a q = (True, snd (prepare_to_send_to cr a q))"
    by (simp add: prod_eq_iff)
  from prepare_True [OF this] obtain s
    where s: "snd (prepare_to_send_to cr a q) = freeze_slot cr s q"
    by blast
  show ?thesis
  proof (cases "i = s")
    case True
    with assms show ?thesis
      by (simp add: s freeze_slot_item open_slot_def)
  next
    case False
    then show ?thesis by (simp add: s freeze_slot_other)
  qed
next
  case False
  then have "prepare_to_send_to cr a q = (False, snd (prepare_to_send_to cr a q))"
    by (simp add: prod_eq_iff)
  then have "snd (prepare_to_send_to cr a q) = q"
    by (auto simp: prepare_to_send_to_def dest: prepare_loop_False split: if_splits)
  then show ?thesis by simp
qed

text \<open>
  The first byte of a packet is its address as long as the slot is open and not in
  flight: a claim starts the packet with the address, the caller's pushes append, and
  only the slot in flight is popped.
\<close>

lemma sq_peek_push:
  "sq_peek b = Some x \<Longrightarrow> sq_peek (sq_push N c b) = Some x"
  by (cases b) (simp_all add: sq_peek_def sq_push_def)

lemma head_ok_want:
  assumes "head_ok q"
  shows "head_ok (snd (want_to_send_for a bytes curtime q))"
proof -
  let ?q' = "snd (want_to_send_for a bytes curtime q)"
  have "want_to_send_for a bytes curtime q = (fst (want_to_send_for a bytes curtime q), ?q')"
    by simp
  from want_result [OF this] show ?thesis
  proof
    assume "?q' = q"
    with assms show ?thesis by simp
  next
    assume "\<exists>s < PACKET_QUEUE_LEN. fst (want_to_send_for a bytes curtime q) = Some s
              \<and> ?q' = q\<lparr>que := (que q)(s := claim_slot a curtime (que q s))\<rparr>"
    then obtain s where s: "?q' = q\<lparr>que := (que q)(s := claim_slot a curtime (que q s))\<rparr>"
      by blast
    show ?thesis
      unfolding head_ok_def
    proof (intro ballI impI)
      fix i
      assume i: "i \<in> {0 ..< PACKET_QUEUE_LEN}"
        and h: "sending ?q' \<noteq> Some i \<and> open_slot (que ?q' i)
                \<and> sint (addr (que ?q' i)) \<noteq> SYNC_ADDR"
      show "sq_peek (packet (que ?q' i)) = Some (addr (que ?q' i))"
      proof (cases "i = s")
        case True
        with h have "sint a \<noteq> SYNC_ADDR"
          by (simp add: s claim_slot_eq)
        then have "uint a \<noteq> SYNC_ADDR"
          by (simp add: sint_sync_iff)
        with True show ?thesis
          by (simp add: s claim_slot_eq sq_peek_def)
      next
        case False
        with h have "sending q \<noteq> Some i \<and> open_slot (que q i)
                     \<and> sint (addr (que q i)) \<noteq> SYNC_ADDR"
          by (simp add: s)
        with assms i have "sq_peek (packet (que q i)) = Some (addr (que q i))"
          unfolding head_ok_def by blast
        with False show ?thesis by (simp add: s)
      qed
    qed
  qed
qed

lemma head_ok_push:
  assumes "head_ok q"
  shows "head_ok (push_payload i c q)"
  unfolding head_ok_def
proof (intro ballI impI)
  fix j
  assume j: "j \<in> {0 ..< PACKET_QUEUE_LEN}"
    and h: "sending (push_payload i c q) \<noteq> Some j \<and> open_slot (que (push_payload i c q) j)
            \<and> sint (addr (que (push_payload i c q) j)) \<noteq> SYNC_ADDR"
  then have "sending q \<noteq> Some j \<and> open_slot (que q j) \<and> sint (addr (que q j)) \<noteq> SYNC_ADDR"
    by (auto simp: push_payload_def open_slot_def split: if_splits)
  with assms j have p: "sq_peek (packet (que q j)) = Some (addr (que q j))"
    unfolding head_ok_def by blast
  then show "sq_peek (packet (que (push_payload i c q) j)) = Some (addr (que (push_payload i c q) j))"
    by (auto simp: push_payload_def sq_peek_push)
qed

lemma head_ok_prepare:
  assumes "head_ok q"
  shows "head_ok (snd (prepare_to_send_to cr a q))"
proof (cases "fst (prepare_to_send_to cr a q)")
  case True
  then have "prepare_to_send_to cr a q = (True, snd (prepare_to_send_to cr a q))"
    by (simp add: prod_eq_iff)
  from prepare_True [OF this] obtain s
    where s: "sending q = None" "snd (prepare_to_send_to cr a q) = freeze_slot cr s q"
    by blast
  show ?thesis
    unfolding head_ok_def s(2)
  proof (intro ballI impI)
    fix i
    assume i: "i \<in> {0 ..< PACKET_QUEUE_LEN}"
      and h: "sending (freeze_slot cr s q) \<noteq> Some i \<and> open_slot (que (freeze_slot cr s q) i)
              \<and> sint (addr (que (freeze_slot cr s q) i)) \<noteq> SYNC_ADDR"
    then have ne: "i \<noteq> s"
      by (auto simp: freeze_slot_sending)
    with h s(1) have "sending q \<noteq> Some i \<and> open_slot (que q i)
                      \<and> sint (addr (que q i)) \<noteq> SYNC_ADDR"
      by (simp add: freeze_slot_other)
    with assms i have "sq_peek (packet (que q i)) = Some (addr (que q i))"
      unfolding head_ok_def by blast
    with ne show "sq_peek (packet (que (freeze_slot cr s q) i))
                    = Some (addr (que (freeze_slot cr s q) i))"
      by (simp add: freeze_slot_other)
  qed
next
  case False
  then have "prepare_to_send_to cr a q = (False, snd (prepare_to_send_to cr a q))"
    by (simp add: prod_eq_iff)
  then have "snd (prepare_to_send_to cr a q) = q"
    by (auto simp: prepare_to_send_to_def dest: prepare_loop_False split: if_splits)
  with assms show ?thesis by simp
qed

lemma pop_result:
  "sending q = Some s \<Longrightarrow>
   (sending (snd (pop q)) = Some s \<and> (\<forall>i. i \<noteq> s \<longrightarrow> que (snd (pop q)) i = que q i))
   \<or> (sending (snd (pop q)) = None \<and> (\<forall>i. i \<noteq> s \<longrightarrow> que (snd (pop q)) i = que q i)
       \<and> que (snd (pop q)) s = \<lparr>addr = -1, packet = [], time = 0\<rparr>)"
  by (auto simp: pop_def sq_pop_def sq_empty_def Item_clear_eq Let_def
           split: option.splits list.splits if_splits)

lemma head_ok_pop:
  assumes "head_ok q"
  shows "head_ok (snd (pop q))"
proof (cases "sending q")
  case None
  with assms show ?thesis by (simp add: pop_def)
next
  case (Some s)
  show ?thesis
    unfolding head_ok_def
  proof (intro ballI impI)
    fix i
    assume i: "i \<in> {0 ..< PACKET_QUEUE_LEN}"
      and h: "sending (snd (pop q)) \<noteq> Some i \<and> open_slot (que (snd (pop q)) i)
              \<and> sint (addr (que (snd (pop q)) i)) \<noteq> SYNC_ADDR"
    have ne: "i \<noteq> s"
      using pop_result [OF Some] h by (auto simp: open_slot_def)
    with pop_result [OF Some] have same: "que (snd (pop q)) i = que q i"
      by blast
    with h ne Some have "sending q \<noteq> Some i \<and> open_slot (que q i)
                         \<and> sint (addr (que q i)) \<noteq> SYNC_ADDR"
      by simp
    with assms i have "sq_peek (packet (que q i)) = Some (addr (que q i))"
      unfolding head_ok_def by blast
    with same show "sq_peek (packet (que (snd (pop q)) i)) = Some (addr (que (snd (pop q)) i))"
      by simp
  qed
qed

lemma reachable_head_ok:
  "reachable cr max_age q \<Longrightarrow> head_ok q"
proof (induction rule: reachable.induct)
  case r_init
  show ?case
    by (simp add: head_ok_def PacketQ_init_def Item_init_def open_slot_def)
next
  case (r_want q a bytes curtime)
  from r_want.IH show ?case by (rule head_ok_want)
next
  case (r_push q i c)
  from r_push.IH show ?case by (rule head_ok_push)
next
  case (r_prepare q a)
  from r_prepare.IH show ?case by (rule head_ok_prepare)
next
  case (r_pop q)
  from r_pop.IH show ?case by (rule head_ok_pop)
qed

lemma frozen_packet_head:
  assumes "head_ok q" and "prepare_to_send_to cr a q = (True, q')"
    and "sending q' = Some s" and "uint a \<noteq> SYNC_ADDR"
  shows "sq_peek (packet (que q s)) = Some a"
proof -
  from prepare_True [OF assms(2)] obtain s' where s': "s' < PACKET_QUEUE_LEN"
    "sending q = None" "sint (addr (que q s')) = uint a" "q' = freeze_slot cr s' q"
    by blast
  with assms(3) have "s' = s" by (simp add: freeze_slot_sending)
  with s' have s: "s < PACKET_QUEUE_LEN" "sint (addr (que q s)) = uint a" by simp_all
  have ad: "addr (que q s) = a"
    using s(2) by (rule sint_eq_uint_same)
  have "open_slot (que q s)"
    using sentinel_never_matches [of "addr (que q s)" a] s(2) by (auto simp: open_slot_def)
  moreover have "sint (addr (que q s)) \<noteq> SYNC_ADDR"
    using assms(4) s(2) by simp
  ultimately have "sq_peek (packet (que q s)) = Some (addr (que q s))"
    using assms(1) s(1) s'(2) unfolding head_ok_def by simp
  with ad show ?thesis by simp
qed


lemma want_cases:
  assumes "want_to_send_for a bytes curtime q = (r, q')"
  shows "(r = None \<and> q' = q)
         \<or> (\<exists>s < PACKET_QUEUE_LEN. r = Some s \<and> coalesces a bytes (que q s) \<and> q' = q)
         \<or> (\<exists>s < PACKET_QUEUE_LEN. r = Some s \<and> \<not> coalesces a bytes (que q s)
               \<and> claimable (packet_max_age q) curtime (que q s)
               \<and> q' = q\<lparr>que := (que q)(s := claim_slot a curtime (que q s))\<rparr>)"
proof (cases r)
  case None
  with assms show ?thesis by (simp add: want_to_send_for_def want_loop_None)
next
  case (Some s)
  with assms have "want_loop 0 a bytes curtime q = (Some s, q')"
    by (simp add: want_to_send_for_def)
  from want_loop_Some [OF this] Some show ?thesis
    by (cases "coalesces a bytes (que q s)") simp_all
qed

lemma claim_distinct_iff:
  assumes d: "distinct_open q" and s: "s < PACKET_QUEUE_LEN"
  shows "distinct_open (q\<lparr>que := (que q)(s := claim_slot a curtime (que q s))\<rparr>) \<longleftrightarrow>
           \<not> (uint a \<noteq> SYNC_ADDR
               \<and> (\<exists>j \<in> {0 ..< PACKET_QUEUE_LEN}. j \<noteq> s \<and> open_slot (que q j) \<and> addr (que q j) = a))"
proof -
  let ?q' = "q\<lparr>que := (que q)(s := claim_slot a curtime (que q s))\<rparr>"
  have new: "addr (que ?q' s) = a"
    by (simp add: claim_slot_eq)
  have old: "que ?q' j = que q j" if "j \<noteq> s" for j
    using that by simp
  show ?thesis
  proof
    assume d': "distinct_open ?q'"
    show "\<not> (uint a \<noteq> SYNC_ADDR
              \<and> (\<exists>j \<in> {0 ..< PACKET_QUEUE_LEN}. j \<noteq> s \<and> open_slot (que q j) \<and> addr (que q j) = a))"
    proof
      assume "uint a \<noteq> SYNC_ADDR
              \<and> (\<exists>j \<in> {0 ..< PACKET_QUEUE_LEN}. j \<noteq> s \<and> open_slot (que q j) \<and> addr (que q j) = a)"
      then obtain j where j: "uint a \<noteq> SYNC_ADDR" "j \<in> {0 ..< PACKET_QUEUE_LEN}" "j \<noteq> s"
        "open_slot (que q j)" "addr (que q j) = a"
        by blast
      have "s \<noteq> j \<and> open_slot (que ?q' s) \<and> open_slot (que ?q' j)
            \<and> sint (addr (que ?q' s)) \<noteq> SYNC_ADDR"
        using j new old [of j] by (simp add: open_slot_def sint_sync_iff)
      moreover have "s \<in> {0 ..< PACKET_QUEUE_LEN}"
        using s by simp
      ultimately have "addr (que ?q' s) \<noteq> addr (que ?q' j)"
        using d' j(2) unfolding distinct_open_def by blast
      with j new old [of j] show False by simp
    qed
  next
    assume free: "\<not> (uint a \<noteq> SYNC_ADDR
              \<and> (\<exists>j \<in> {0 ..< PACKET_QUEUE_LEN}. j \<noteq> s \<and> open_slot (que q j) \<and> addr (que q j) = a))"
    have far: "addr (que q j) \<noteq> a"
      if "j \<in> {0 ..< PACKET_QUEUE_LEN}" "j \<noteq> s" "open_slot (que q j)" "sint a \<noteq> SYNC_ADDR" for j
      using free that by (auto simp: sint_sync_iff)
    show "distinct_open ?q'"
      unfolding distinct_open_def
    proof (intro ballI impI)
      fix i j
      assume ij: "i \<in> {0 ..< PACKET_QUEUE_LEN}" "j \<in> {0 ..< PACKET_QUEUE_LEN}"
        and h: "i \<noteq> j \<and> open_slot (que ?q' i) \<and> open_slot (que ?q' j)
                \<and> sint (addr (que ?q' i)) \<noteq> SYNC_ADDR"
      consider "i = s" | "j = s" "i \<noteq> s" | "i \<noteq> s" "j \<noteq> s" by blast
      then show "addr (que ?q' i) \<noteq> addr (que ?q' j)"
      proof cases
        case 1
        with h have "j \<noteq> s" "open_slot (que q j)" "sint a \<noteq> SYNC_ADDR"
          using new by (auto simp: old)
        with far [of j] ij have "addr (que q j) \<noteq> a" by simp
        with 1 \<open>j \<noteq> s\<close> new show ?thesis by (simp add: old)
      next
        case 2
        show ?thesis
        proof
          assume e: "addr (que ?q' i) = addr (que ?q' j)"
          with 2 new have ia: "addr (que q i) = a" by (simp add: old)
          with h 2 have "open_slot (que q i)" "sint a \<noteq> SYNC_ADDR"
            by (auto simp: old)
          with far [of i] ij 2 ia show False by simp
        qed
      next
        case 3
        with h have "i \<noteq> j \<and> open_slot (que q i) \<and> open_slot (que q j)
                     \<and> sint (addr (que q i)) \<noteq> SYNC_ADDR"
          by (simp add: old)
        with d ij have "addr (que q i) \<noteq> addr (que q j)"
          unfolding distinct_open_def by blast
        with 3 show ?thesis by (simp add: old)
      qed
    qed
  qed
qed


subsection \<open>The example states\<close>

lemma ex_open5_que:
  "que ex_open5 = (\<lambda>_. Item_init)(31 := \<lparr>addr = 5, packet = [5], time = 0\<rparr>)"
proof -
  have "want_to_send_for 5 3 0 (PacketQ_init 60) =
          (Some 31, (PacketQ_init 60)\<lparr>que := (que (PacketQ_init 60))
                       (31 := claim_slot 5 0 (que (PacketQ_init 60) 31))\<rparr>)"
  proof -
    have s: "31 < PACKET_QUEUE_LEN"
      by (simp add: PACKET_QUEUE_LEN_def)
    have v: "\<forall>j. 31 < j \<and> j < PACKET_QUEUE_LEN \<longrightarrow> passed_over 5 3 0 (PacketQ_init 60) j"
      by (auto simp: PACKET_QUEUE_LEN_def)
    show ?thesis
      by (subst want_loop_at [OF s v])
         (simp add: coalesces_def claimable_def PacketQ_init_def Item_init_def)
  qed
  then show ?thesis
    by (simp add: ex_open5_def claim_slot_eq PacketQ_init_def SYNC_ADDR_def)
qed

section \<open>The claims\<close>

text \<open>
  C1. The claim is that no call of \<^verbatim>\<open>want_to_send_for\<close> selects a frozen slot, however
  stale. The code's rule 2 tests \<open>addr = -1\<close> or staleness and has no test for \<open>-2\<close>:
  here slot 31 is frozen with \<open>time = 0\<close> and \<open>packet_max_age = 60\<close>, and the call
  \<^verbatim>\<open>want_to_send_for(9, 1, 61)\<close> returns slot 31 and rebinds it while \<open>sending\<close> still
  points to it.
\<close>

theorem frozen_stale_slot_is_reclaimed:
  "que ex_frozen5 31 = \<lparr>addr = -2, packet = [0xFA], time = 0\<rparr>
   \<and> sending ex_frozen5 = Some 31
   \<and> fst (want_to_send_for 9 1 61 ex_frozen5) = Some 31
   \<and> que ex_reclaimed 31 = \<lparr>addr = 9, packet = [9], time = 61\<rparr>
   \<and> sending ex_reclaimed = Some 31"
proof -
  have "que ex_frozen5 31 = \<lparr>addr = -2, packet = [0xFA], time = 0\<rparr>" by code_simp
  moreover have "sending ex_frozen5 = Some 31" by code_simp
  moreover have "fst (want_to_send_for 9 1 61 ex_frozen5) = Some 31" by code_simp
  moreover have "que ex_reclaimed 31 = \<lparr>addr = 9, packet = [9], time = 61\<rparr>" by code_simp
  moreover have "sending ex_reclaimed = Some 31" by code_simp
  ultimately show ?thesis by blast
qed

text \<open>
  C2. After a successful \<^verbatim>\<open>prepare_to_send_to\<close> on slot \<open>s\<close>, whose packet holds at most
  \<open>SENT_PACKET_LEN\<close> bytes, with a tag of at most 4 bytes (so that both dummy bytes fit
  the 6-byte MAC buffer) and a cipher that keeps the length, the values \<^verbatim>\<open>peek\<close> returns
  until \<^verbatim>\<open>pop\<close> returns false are \<open>AA AA 2D D4 L\<close>, the payload (the plaintext for
  \<open>SYNC_ADDR\<close>, its encryption otherwise), the tag of the plaintext and \<open>AA AA\<close>; the low
  seven bits of \<open>L\<close> are the payload size plus the tag size, and bit 7 of \<open>L\<close> is set
  exactly for \<open>SYNC_ADDR\<close>.
\<close>

theorem frame_shape:
  assumes "prepare_to_send_to cr a q = (True, q')"
    and "sending q' = Some s"
    and "length (packet (que q s)) \<le> SENT_PACKET_LEN"
    and "length (cmac_fill cr (packet (que q s)) False) \<le> 4"
    and "length (encrypt_decrypt cr (packet (que q s))) = length (packet (que q s))"
  shows "\<exists>L payload.
           fst (drain q') =
             map uint ([0xAA, 0xAA, 0x2D, 0xD4, L] @ payload
                       @ cmac_fill cr (packet (que q s)) False @ [0xAA, 0xAA])
           \<and> payload = (if uint a = SYNC_ADDR then packet (que q s)
                        else encrypt_decrypt cr (packet (que q s)))
           \<and> length payload = length (packet (que q s))
           \<and> unat (L AND 0x7F)
               = length (packet (que q s)) + length (cmac_fill cr (packet (que q s)) False)
           \<and> (bit L 7 \<longleftrightarrow> uint a = SYNC_ADDR)"
proof -
  let ?p = "packet (que q s)"
  let ?mac = "cmac_fill cr ?p False"
  let ?payload = "if uint a = SYNC_ADDR then ?p else encrypt_decrypt cr ?p"
  let ?L = "word_of_int ((int (length ?p) + int (length ?mac))
                         OR (if uint a = SYNC_ADDR then 0x80 else 0x00)) :: uint8_t"
  from prepare_True [OF assms(1)] obtain s' where s': "sint (addr (que q s')) = uint a"
    "q' = freeze_slot cr s' q"
    by blast
  with assms(2) have "s' = s"
    by (simp add: freeze_slot_sending)
  with s' have a: "sint (addr (que q s)) = uint a" and q': "q' = freeze_slot cr s q"
    by simp_all
  have "length ?mac \<le> 6" "length (?mac @ [0xAA, 0xAA]) \<le> 6"
    using assms(4) by simp_all
  then have tk: "take 6 ?mac = ?mac" "take 6 (?mac @ [0xAA, 0xAA]) = ?mac @ [0xAA, 0xAA]"
    by (simp_all only: take_all)
  have pro: "prologue q' = [0xAA, 0xAA, 0x2D, 0xD4, ?L]"
    by (simp only: q' freeze_slot_prologue tk a)
  have pay: "packet (que q' s) = ?payload"
    by (simp add: q' freeze_slot_item a)
  have mac: "cmac q' = ?mac @ [0xAA, 0xAA]"
    by (simp only: q' freeze_slot_cmac tk)
  have "cmac q' \<noteq> []"
    by (simp add: mac)
  from drain_frame [OF assms(2) this]
  have "fst (drain q') = map uint (frame_bytes q' s)"
    by simp
  then have d: "fst (drain q') =
      map uint ([0xAA, 0xAA, 0x2D, 0xD4, ?L] @ ?payload @ ?mac @ [0xAA, 0xAA])"
    by (simp only: frame_bytes_def pro pay mac)
  have len: "length ?payload = length ?p"
    using assms(5) by simp
  have "length ?p + length ?mac < 128"
    using assms(3,4) by (simp add: SENT_PACKET_LEN_def)
  from length_byte [OF this refl, of "uint a = SYNC_ADDR"]
  have L: "unat (?L AND 0x7F) = length ?p + length ?mac \<and> (bit ?L 7 \<longleftrightarrow> uint a = SYNC_ADDR)" .
  from d len L show ?thesis by blast
qed

theorem frame_shape_witness:
  "prepare_to_send_to mock_crypto 5 ex_scenario1 = (True, snd (prepare_to_send_to mock_crypto 5 ex_scenario1))
   \<and> sending (snd (prepare_to_send_to mock_crypto 5 ex_scenario1)) = Some 31
   \<and> packet (que ex_scenario1 31) = [0x05, 0x11, 0x22, 0x33, 0x44, 0x55]
   \<and> cmac_fill mock_crypto [0x05, 0x11, 0x22, 0x33, 0x44, 0x55] False = [0x04, 0x01, 0x00, 0x00]
   \<and> encrypt_decrypt mock_crypto [0x05, 0x11, 0x22, 0x33, 0x44, 0x55]
        = [0xFA, 0xEE, 0xDD, 0xCC, 0xBB, 0xAA]
   \<and> (\<exists>L :: uint8_t. fst (drain (snd (prepare_to_send_to mock_crypto 5 ex_scenario1))) =
            map uint ([0xAA, 0xAA, 0x2D, 0xD4, L] @ [0xFA, 0xEE, 0xDD, 0xCC, 0xBB, 0xAA]
                      @ [0x04, 0x01, 0x00, 0x00] @ [0xAA, 0xAA])
          \<and> unat (L AND 0x7F) = 6 + 4 \<and> \<not> bit L 7)"
proof -
  let ?q' = "snd (prepare_to_send_to mock_crypto 5 ex_scenario1)"
  have "fst (prepare_to_send_to mock_crypto 5 ex_scenario1)" by code_simp
  then have e: "prepare_to_send_to mock_crypto 5 ex_scenario1 = (True, ?q')"
    by (simp add: prod_eq_iff)
  have g: "sending ?q' = Some 31" by code_simp
  have p: "packet (que ex_scenario1 31) = [0x05, 0x11, 0x22, 0x33, 0x44, 0x55]" by code_simp
  have m: "cmac_fill mock_crypto [0x05, 0x11, 0x22, 0x33, 0x44, 0x55] False
             = [0x04, 0x01, 0x00, 0x00]" by code_simp
  have x: "encrypt_decrypt mock_crypto [0x05, 0x11, 0x22, 0x33, 0x44, 0x55]
             = [0xFA, 0xEE, 0xDD, 0xCC, 0xBB, 0xAA]" by code_simp
  have n: "uint (5 :: uint8_t) \<noteq> SYNC_ADDR" by (simp add: SYNC_ADDR_def)
  have h3: "length (packet (que ex_scenario1 31)) \<le> SENT_PACKET_LEN"
    by (simp add: p SENT_PACKET_LEN_def)
  have h4: "length (cmac_fill mock_crypto (packet (que ex_scenario1 31)) False) \<le> 4"
    by (simp add: p m)
  have h5: "length (encrypt_decrypt mock_crypto (packet (que ex_scenario1 31)))
              = length (packet (que ex_scenario1 31))"
    by (simp add: p x)
  from frame_shape [OF e g h3 h4 h5] obtain L :: uint8_t
    where L: "fst (drain ?q') =
                map uint ([0xAA, 0xAA, 0x2D, 0xD4, L]
                  @ (if uint (5 :: uint8_t) = SYNC_ADDR then packet (que ex_scenario1 31)
                     else encrypt_decrypt mock_crypto (packet (que ex_scenario1 31)))
                  @ cmac_fill mock_crypto (packet (que ex_scenario1 31)) False @ [0xAA, 0xAA])"
      "unat (L AND 0x7F) = length (packet (que ex_scenario1 31))
                           + length (cmac_fill mock_crypto (packet (que ex_scenario1 31)) False)"
      "bit L 7 \<longleftrightarrow> uint (5 :: uint8_t) = SYNC_ADDR"
    by blast
  from L(1) have "fst (drain ?q') =
      map uint ([0xAA, 0xAA, 0x2D, 0xD4, L] @ [0xFA, 0xEE, 0xDD, 0xCC, 0xBB, 0xAA]
                @ [0x04, 0x01, 0x00, 0x00] @ [0xAA, 0xAA])"
    by (simp add: p m x SYNC_ADDR_def)
  moreover from L(2) have "unat (L AND 0x7F) = 6 + 4"
    by (simp add: p m)
  moreover from L(3) have "\<not> bit L 7"
    by (simp add: SYNC_ADDR_def)
  ultimately have "\<exists>L :: uint8_t. fst (drain ?q') =
            map uint ([0xAA, 0xAA, 0x2D, 0xD4, L] @ [0xFA, 0xEE, 0xDD, 0xCC, 0xBB, 0xAA]
                      @ [0x04, 0x01, 0x00, 0x00] @ [0xAA, 0xAA])
          \<and> unat (L AND 0x7F) = 6 + 4 \<and> \<not> bit L 7"
    by blast
  with e g p m x show ?thesis by blast
qed

text \<open>
  C3. After a successful \<^verbatim>\<open>prepare_to_send_to\<close> on slot \<open>s\<close>, the MAC buffer holds the tag
  \<open>cmac_fill\<close> computed of the packet as it was before the call (the plaintext), followed
  by the dummy bytes, as far as the six bytes of the buffer go; the packet is the
  plaintext itself for \<open>SYNC_ADDR\<close> and its image under \<open>encrypt_decrypt\<close> otherwise.
\<close>

theorem mac_over_plaintext:
  assumes "prepare_to_send_to cr a q = (True, q')"
  shows "\<exists>s < PACKET_QUEUE_LEN. sending q' = Some s \<and> sint (addr (que q s)) = uint a
           \<and> cmac q' = take 6 (cmac_fill cr (packet (que q s)) False @ [0xAA, 0xAA])
           \<and> packet (que q' s) = (if uint a = SYNC_ADDR then packet (que q s)
                                    else encrypt_decrypt cr (packet (que q s)))"
proof -
  from prepare_True [OF assms] obtain s where s: "s < PACKET_QUEUE_LEN"
    "sint (addr (que q s)) = uint a" "q' = freeze_slot cr s q"
    by blast
  have "sending q' = Some s"
    by (simp add: s(3) freeze_slot_sending)
  moreover have "cmac q' = take 6 (cmac_fill cr (packet (que q s)) False @ [0xAA, 0xAA])"
    by (simp add: s(3) freeze_slot_cmac)
  moreover have "packet (que q' s) = (if uint a = SYNC_ADDR then packet (que q s)
                                       else encrypt_decrypt cr (packet (que q s)))"
    by (simp add: s(3) freeze_slot_item s(2))
  ultimately show ?thesis using s(1,2) by blast
qed

theorem mac_over_plaintext_witness:
  "prepare_to_send_to mock_crypto 5 ex_open5 = (True, ex_frozen5)
   \<and> packet (que ex_open5 31) = [5]
   \<and> cmac_fill mock_crypto [5] False = [5, 0, 0, 0]
   \<and> cmac ex_frozen5 = [5, 0, 0, 0, 0xAA, 0xAA]
   \<and> packet (que ex_frozen5 31) = [0xFA]"
proof -
  have "fst (prepare_to_send_to mock_crypto 5 ex_open5)" by code_simp
  then have e: "prepare_to_send_to mock_crypto 5 ex_open5 = (True, ex_frozen5)"
    by (simp add: prod_eq_iff ex_frozen5_def)
  have g: "sending ex_frozen5 = Some 31" by code_simp
  have p: "packet (que ex_open5 31) = [5]" by code_simp
  have m: "cmac_fill mock_crypto [5] False = [5, 0, 0, 0]" by code_simp
  have x: "encrypt_decrypt mock_crypto [5] = [0xFA]" by code_simp
  have n: "uint (5 :: uint8_t) \<noteq> SYNC_ADDR" by (simp add: SYNC_ADDR_def)
  from mac_over_plaintext [OF e] g p m x n
  have "cmac ex_frozen5 = [5, 0, 0, 0, 0xAA, 0xAA] \<and> packet (que ex_frozen5 31) = [0xFA]"
    by auto
  with e p m show ?thesis by blast
qed

text \<open>
  C4. The claim is that the open slots are bound to pairwise distinct non-sync
  addresses in every state the four operations reach. A second slot is bound to an
  address whose slot lacks room: after \<^verbatim>\<open>want_to_send_for(5, 3, 0)\<close> slot 31 holds one
  byte, so it has 75 bytes free, and \<^verbatim>\<open>want_to_send_for(5, 75, 0)\<close>, which needs more than
  75, binds slot 30 to 5 as well.
\<close>

theorem two_open_slots_same_address:
  "reachable mock_crypto 60 ex_twice5
   \<and> que ex_twice5 31 = \<lparr>addr = 5, packet = [5], time = 0\<rparr>
   \<and> que ex_twice5 30 = \<lparr>addr = 5, packet = [5], time = 0\<rparr>
   \<and> \<not> distinct_open ex_twice5"
proof -
  have r: "reachable mock_crypto 60 ex_twice5"
    unfolding ex_twice5_def ex_open5_def
    by (intro reachable.r_want reachable.r_init)
  have a: "que ex_twice5 31 = \<lparr>addr = 5, packet = [5], time = 0\<rparr>" by code_simp
  have b: "que ex_twice5 30 = \<lparr>addr = 5, packet = [5], time = 0\<rparr>" by code_simp
  have "\<not> distinct_open ex_twice5"
  proof
    assume "distinct_open ex_twice5"
    then have "(30 :: nat) \<noteq> 31 \<and> open_slot (que ex_twice5 30) \<and> open_slot (que ex_twice5 31)
               \<and> sint (addr (que ex_twice5 30)) \<noteq> SYNC_ADDR
               \<longrightarrow> addr (que ex_twice5 30) \<noteq> addr (que ex_twice5 31)"
      unfolding distinct_open_def by (simp add: PACKET_QUEUE_LEN_def)
    then show False
      by (simp add: a b open_slot_def SYNC_ADDR_def)
  qed
  with r a b show ?thesis by blast
qed

text \<open>
  C4, amended. \<^verbatim>\<open>prepare_to_send_to\<close> and \<^verbatim>\<open>pop\<close> keep the open slots' non-sync
  addresses pairwise distinct (\<^verbatim>\<open>peek\<close> changes nothing). A call
  \<^verbatim>\<open>want_to_send_for(a, ...)\<close> made in a state where they are distinct leaves them
  distinct in every case but one: it returns a slot without coalescing (it claims the
  slot under rule 2), \<open>a\<close> is not \<open>SYNC_ADDR\<close>, and another open slot is bound to \<open>a\<close>.
  In that case they are no longer distinct after the call.
\<close>

theorem distinct_open_preserved:
  assumes "distinct_open q"
  shows "distinct_open (snd (prepare_to_send_to cr a q))
         \<and> distinct_open (snd (pop q))
         \<and> (distinct_open (snd (want_to_send_for a bytes curtime q)) \<longleftrightarrow>
              \<not> (\<exists>s. fst (want_to_send_for a bytes curtime q) = Some s
                      \<and> \<not> coalesces a bytes (que q s)
                      \<and> uint a \<noteq> SYNC_ADDR
                      \<and> (\<exists>j \<in> {0 ..< PACKET_QUEUE_LEN}.
                            j \<noteq> s \<and> open_slot (que q j) \<and> addr (que q j) = a)))"
proof (intro conjI)
  show "distinct_open (snd (prepare_to_send_to cr a q))"
    using assms by (rule distinct_open_transfer) (simp add: prepare_keeps_open_addr)
  show "distinct_open (snd (pop q))"
    using assms by (rule distinct_open_transfer) (simp add: pop_keeps_open_addr)
  let ?r = "fst (want_to_send_for a bytes curtime q)"
  let ?q' = "snd (want_to_send_for a bytes curtime q)"
  let ?clash = "\<lambda>s. uint a \<noteq> SYNC_ADDR
                  \<and> (\<exists>j \<in> {0 ..< PACKET_QUEUE_LEN}. j \<noteq> s \<and> open_slot (que q j) \<and> addr (que q j) = a)"
  have "want_to_send_for a bytes curtime q = (?r, ?q')" by simp
  from want_cases [OF this]
  consider "?r = None" "?q' = q"
    | s where "?r = Some s" "coalesces a bytes (que q s)" "?q' = q"
    | s where "s < PACKET_QUEUE_LEN" "?r = Some s" "\<not> coalesces a bytes (que q s)"
        "?q' = q\<lparr>que := (que q)(s := claim_slot a curtime (que q s))\<rparr>"
    by (elim disjE exE conjE) auto
  then show "distinct_open ?q' \<longleftrightarrow>
               \<not> (\<exists>s. ?r = Some s \<and> \<not> coalesces a bytes (que q s) \<and> uint a \<noteq> SYNC_ADDR
                       \<and> (\<exists>j \<in> {0 ..< PACKET_QUEUE_LEN}.
                             j \<noteq> s \<and> open_slot (que q j) \<and> addr (que q j) = a))"
  proof cases
    case 1
    with assms show ?thesis by simp
  next
    case 2
    with assms show ?thesis by auto
  next
    case 3
    have "distinct_open ?q' \<longleftrightarrow> \<not> ?clash s"
      unfolding 3(4) by (rule claim_distinct_iff [OF assms 3(1)])
    with 3(2,3) show ?thesis by auto
  qed
qed

theorem distinct_open_preserved_witness:
  "fst (want_to_send_for 7 1 0 ex_open5) = Some 30
   \<and> que (snd (want_to_send_for 7 1 0 ex_open5)) 31 = \<lparr>addr = 5, packet = [5], time = 0\<rparr>
   \<and> open_slot (que (snd (want_to_send_for 7 1 0 ex_open5)) 30)
   \<and> addr (que (snd (want_to_send_for 7 1 0 ex_open5)) 30)
        \<noteq> addr (que (snd (want_to_send_for 7 1 0 ex_open5)) 31)
   \<and> fst (want_to_send_for 5 75 0 ex_open5) = Some 30
   \<and> \<not> coalesces 5 75 (que ex_open5 30)
   \<and> open_slot (que ex_open5 31)
   \<and> addr (que ex_open5 31) = 5
   \<and> \<not> distinct_open (snd (want_to_send_for 5 75 0 ex_open5))"
proof -
  let ?q = "snd (want_to_send_for 7 1 0 ex_open5)"
  have i: "distinct_open (PacketQ_init 60)"
    by (simp add: distinct_open_def PacketQ_init_def Item_init_def open_slot_def)
  have "\<not> (\<exists>s. fst (want_to_send_for 5 3 0 (PacketQ_init 60)) = Some s
              \<and> \<not> coalesces 5 3 (que (PacketQ_init 60) s)
              \<and> uint (5 :: uint8_t) \<noteq> SYNC_ADDR
              \<and> (\<exists>j \<in> {0 ..< PACKET_QUEUE_LEN}.
                    j \<noteq> s \<and> open_slot (que (PacketQ_init 60) j)
                    \<and> addr (que (PacketQ_init 60) j) = 5))"
    by (simp add: PacketQ_init_def Item_init_def open_slot_def)
  with distinct_open_preserved [OF i, where cr = mock_crypto and a = 5 and bytes = 3 and curtime = 0]
  have d: "distinct_open ex_open5"
    unfolding ex_open5_def by blast
  have r: "fst (want_to_send_for 7 1 0 ex_open5) = Some 30" by code_simp
  have "\<not> (\<exists>j \<in> {0 ..< PACKET_QUEUE_LEN}.
              j \<noteq> 30 \<and> open_slot (que ex_open5 j) \<and> addr (que ex_open5 j) = 7)"
    by (simp add: ex_open5_que Item_init_def)
  then have o: "\<not> (\<exists>s. fst (want_to_send_for 7 1 0 ex_open5) = Some s
              \<and> \<not> coalesces 7 1 (que ex_open5 s)
              \<and> uint (7 :: uint8_t) \<noteq> SYNC_ADDR
              \<and> (\<exists>j \<in> {0 ..< PACKET_QUEUE_LEN}.
                    j \<noteq> s \<and> open_slot (que ex_open5 j) \<and> addr (que ex_open5 j) = 7))"
    by (simp add: r)
  from distinct_open_preserved [OF d, where cr = mock_crypto and a = 7 and bytes = 1 and curtime = 0] o
  have "distinct_open ?q"
    by blast
  then have "(30 :: nat) \<noteq> 31 \<and> open_slot (que ?q 30) \<and> open_slot (que ?q 31)
             \<and> sint (addr (que ?q 30)) \<noteq> SYNC_ADDR
             \<longrightarrow> addr (que ?q 30) \<noteq> addr (que ?q 31)"
    unfolding distinct_open_def by (simp add: PACKET_QUEUE_LEN_def)
  moreover have s30: "open_slot (que ?q 30)" by code_simp
  moreover have "open_slot (que ?q 31)" by code_simp
  moreover have "sint (addr (que ?q 30)) \<noteq> SYNC_ADDR" by code_simp
  ultimately have ne: "addr (que ?q 30) \<noteq> addr (que ?q 31)"
    by simp
  have q31: "que ?q 31 = \<lparr>addr = 5, packet = [5], time = 0\<rparr>" by code_simp
  have r5: "fst (want_to_send_for 5 75 0 ex_open5) = Some 30" by code_simp
  have nc: "\<not> coalesces 5 75 (que ex_open5 30)" by code_simp
  have o31: "open_slot (que ex_open5 31)" by code_simp
  have a31: "addr (que ex_open5 31) = 5" by code_simp
  have sy: "uint (5 :: uint8_t) \<noteq> SYNC_ADDR" by (simp add: SYNC_ADDR_def)
  have "(31 :: nat) \<in> {0 ..< PACKET_QUEUE_LEN}" by (simp add: PACKET_QUEUE_LEN_def)
  with r5 nc o31 a31 sy
  have "\<exists>s. fst (want_to_send_for 5 75 0 ex_open5) = Some s
              \<and> \<not> coalesces 5 75 (que ex_open5 s)
              \<and> uint (5 :: uint8_t) \<noteq> SYNC_ADDR
              \<and> (\<exists>j \<in> {0 ..< PACKET_QUEUE_LEN}.
                    j \<noteq> s \<and> open_slot (que ex_open5 j) \<and> addr (que ex_open5 j) = 5)"
    by (intro exI [of _ 30] conjI bexI [of _ 31]) simp_all
  with distinct_open_preserved [OF d, where cr = mock_crypto and a = 5 and bytes = 75 and curtime = 0]
  have br: "\<not> distinct_open (snd (want_to_send_for 5 75 0 ex_open5))"
    by blast
  from r q31 s30 ne r5 nc o31 a31 br show ?thesis by blast
qed


text \<open>
  C5. In every state the queue can reach with a frame in flight on slot \<open>s\<close>, some byte
  of the frame is left; \<^verbatim>\<open>pop\<close> removes the head of the first non-empty of prologue,
  packet of slot \<open>s\<close> and MAC buffer and leaves everything else as it was, and it
  returns true exactly when bytes are left after that. When none is left (the MAC
  buffer was emptied), prologue and MAC buffer are empty, slot \<open>s\<close> is back to
  \<open>addr = -1\<close>, \<open>time = 0\<close> and an empty packet, \<open>sending\<close> is null, and no other slot
  has changed.
\<close>

theorem pop_in_flight:
  assumes "reachable cr max_age q" and "sending q = Some s"
  shows "frame_bytes q s \<noteq> []
         \<and> fst (pop q) = (tl (frame_bytes q s) \<noteq> [])
         \<and> (prologue q \<noteq> [] \<longrightarrow> snd (pop q) = q\<lparr>prologue := tl (prologue q)\<rparr>)
         \<and> (prologue q = [] \<and> packet (que q s) \<noteq> [] \<longrightarrow>
              snd (pop q) = q\<lparr>que := (que q)(s := (que q s)\<lparr>packet := tl (packet (que q s))\<rparr>)\<rparr>)
         \<and> (prologue q = [] \<and> packet (que q s) = [] \<and> tl (cmac q) \<noteq> [] \<longrightarrow>
              snd (pop q) = q\<lparr>cmac := tl (cmac q)\<rparr>)
         \<and> (prologue q = [] \<and> packet (que q s) = [] \<and> tl (cmac q) = [] \<longrightarrow>
              snd (pop q) = q\<lparr>prologue := [],
                                que := (que q)(s := \<lparr>addr = -1, packet = [], time = 0\<rparr>),
                                cmac := [], sending := None\<rparr>)"
proof -
  from reachable_cmac_nonempty [OF assms(1)] assms(2)
  obtain b c' where c: "cmac q = b # c'"
    by (cases "cmac q") auto
  then have ne: "frame_bytes q s \<noteq> []"
    by (simp add: frame_bytes_def)
  show ?thesis
  proof (cases "prologue q")
    case (Cons x p')
    with c ne pop_prologue [OF assms(2) Cons] show ?thesis
      by (simp add: frame_bytes_def)
  next
    case pn: Nil
    show ?thesis
    proof (cases "packet (que q s)")
      case (Cons x d')
      with c ne pn pop_packet [OF assms(2) pn Cons] show ?thesis
        by (simp add: frame_bytes_def)
    next
      case dn: Nil
      show ?thesis
      proof (cases "c' = []")
        case True
        with c have "cmac q = [b]" by simp
        from pop_last [OF assms(2) pn dn this] c ne pn dn True show ?thesis
          by (simp add: frame_bytes_def)
      next
        case False
        from pop_cmac [OF assms(2) pn dn c False] c ne pn dn False show ?thesis
          by (simp add: frame_bytes_def)
      qed
    qed
  qed
qed

theorem pop_in_flight_witness:
  "reachable mock_crypto 60 ex_frozen5 \<and> sending ex_frozen5 = Some 31
   \<and> frame_bytes ex_frozen5 31 = [0xAA, 0xAA, 0x2D, 0xD4, 5, 0xFA, 5, 0, 0, 0, 0xAA, 0xAA]
   \<and> fst (pop ex_frozen5)
   \<and> snd (pop ex_frozen5) = ex_frozen5\<lparr>prologue := [0xAA, 0x2D, 0xD4, 5]\<rparr>"
proof -
  have r: "reachable mock_crypto 60 ex_frozen5"
    unfolding ex_frozen5_def ex_open5_def
    by (intro reachable.r_prepare reachable.r_want reachable.r_init)
  have s: "sending ex_frozen5 = Some 31" by code_simp
  have f: "frame_bytes ex_frozen5 31 = [0xAA, 0xAA, 0x2D, 0xD4, 5, 0xFA, 5, 0, 0, 0, 0xAA, 0xAA]"
    by code_simp
  have p: "prologue ex_frozen5 = [0xAA, 0xAA, 0x2D, 0xD4, 5]" by code_simp
  from pop_in_flight [OF r s] f p
  have "fst (pop ex_frozen5) \<and> snd (pop ex_frozen5) = ex_frozen5\<lparr>prologue := [0xAA, 0x2D, 0xD4, 5]\<rparr>"
    by simp
  with r s f show ?thesis by blast
qed

text \<open>
  C6. A call of \<^verbatim>\<open>want_to_send_for\<close> that returns slot \<open>s\<close> without coalescing has found
  \<open>s\<close> free or stale; it stores the argument's eight bits in \<open>addr\<close> (as a signed value
  this is the argument itself for every argument up to 127), sets \<open>time\<close> to \<open>curtime\<close>
  and leaves the packet empty for \<open>SYNC_ADDR\<close> and holding just the address otherwise;
  nothing else changes, and the address stays the first byte of the packet whatever
  is pushed after it. Consequently, in every state the queue can reach, each open slot
  bound to a non-sync address and not in flight has a packet that starts with the
  slot's address, and whenever \<^verbatim>\<open>prepare_to_send_to\<close> freezes a slot for a non-sync
  address, the packet it finds there (the plaintext that is signed and then
  encrypted) starts with that address.
\<close>

theorem claim_binds_slot:
  "(want_to_send_for a bytes curtime q = (Some s, q') \<and> \<not> coalesces a bytes (que q s) \<longrightarrow>
      claimable (packet_max_age q) curtime (que q s)
      \<and> que q' s = \<lparr>addr = a, packet = (if uint a \<noteq> SYNC_ADDR then [a] else []), time = curtime\<rparr>
      \<and> (uint a \<le> 127 \<longrightarrow> sint (addr (que q' s)) = uint a)
      \<and> q' = q\<lparr>que := (que q)(s := que q' s)\<rparr>
      \<and> (uint a \<noteq> SYNC_ADDR \<longrightarrow>
           (\<forall>bs. sq_peek (sq_push_all SENT_PACKET_LEN bs (packet (que q' s))) = Some a)))
   \<and> (reachable cr max_age p \<longrightarrow>
        head_ok p
        \<and> (\<forall>b p' t. prepare_to_send_to cr b p = (True, p') \<and> sending p' = Some t
                     \<and> uint b \<noteq> SYNC_ADDR
                     \<longrightarrow> sq_peek (packet (que p t)) = Some b))"
proof (intro conjI impI)
  assume h: "want_to_send_for a bytes curtime q = (Some s, q') \<and> \<not> coalesces a bytes (que q s)"
  then have w: "want_loop 0 a bytes curtime q = (Some s, q')"
    by (simp add: want_to_send_for_def)
  from want_loop_Some [OF w] h
  have c: "claimable (packet_max_age q) curtime (que q s)"
    and q': "q' = q\<lparr>que := (que q)(s := claim_slot a curtime (que q s))\<rparr>"
    by auto
  show "claimable (packet_max_age q) curtime (que q s)" by (rule c)
  show slot: "que q' s = \<lparr>addr = a, packet = (if uint a \<noteq> SYNC_ADDR then [a] else []), time = curtime\<rparr>"
    by (simp add: q' claim_slot_eq)
  show "sint (addr (que q' s)) = uint a" if "uint a \<le> 127"
    using that by (simp add: slot sint_small)
  show "q' = q\<lparr>que := (que q)(s := que q' s)\<rparr>"
    by (subst (1) q') (simp add: q')
  show "\<forall>bs. sq_peek (sq_push_all SENT_PACKET_LEN bs (packet (que q' s))) = Some a"
    if "uint a \<noteq> SYNC_ADDR"
    using that by (simp add: slot sq_peek_push_all)
next
  assume r: "reachable cr max_age p"
  then show ok: "head_ok p" by (rule reachable_head_ok)
  show "\<forall>b p' t. prepare_to_send_to cr b p = (True, p') \<and> sending p' = Some t
                  \<and> uint b \<noteq> SYNC_ADDR
                  \<longrightarrow> sq_peek (packet (que p t)) = Some b"
    using frozen_packet_head [OF ok] by blast
qed

theorem claim_binds_slot_witness:
  "want_to_send_for 5 3 0 (PacketQ_init 60) = (Some 31, ex_open5)
   \<and> \<not> coalesces 5 3 (que (PacketQ_init 60) 31)
   \<and> que ex_open5 31 = \<lparr>addr = 5, packet = [5], time = 0\<rparr>
   \<and> sint (addr (que ex_open5 31)) = 5
   \<and> sq_peek (sq_push_all SENT_PACKET_LEN [0x11, 0x22, 0x33] (packet (que ex_open5 31))) = Some 5
   \<and> reachable mock_crypto 60 ex_scenario1
   \<and> fst (prepare_to_send_to mock_crypto 5 ex_scenario1)
   \<and> sending (snd (prepare_to_send_to mock_crypto 5 ex_scenario1)) = Some 31
   \<and> sq_peek (packet (que ex_scenario1 31)) = Some 5"
proof -
  have "fst (want_to_send_for 5 3 0 (PacketQ_init 60)) = Some 31" by code_simp
  then have e: "want_to_send_for 5 3 0 (PacketQ_init 60) = (Some 31, ex_open5)"
    by (simp add: prod_eq_iff ex_open5_def)
  have n: "\<not> coalesces 5 3 (que (PacketQ_init 60) 31)" by code_simp
  have s: "uint (5 :: uint8_t) \<noteq> SYNC_ADDR" "uint (5 :: uint8_t) \<le> 127"
    by (simp_all add: SYNC_ADDR_def)
  note t = claim_binds_slot [THEN conjunct1, THEN mp, OF conjI [OF e n]]
  from t have a: "que ex_open5 31 = \<lparr>addr = 5, packet = [5], time = 0\<rparr>"
    using s by simp
  from t s have b: "sint (addr (que ex_open5 31)) = 5"
    by simp
  from t s
  have c: "sq_peek (sq_push_all SENT_PACKET_LEN [0x11, 0x22, 0x33] (packet (que ex_open5 31))) = Some 5"
    by blast
  have r: "reachable mock_crypto 60 ex_scenario1"
    unfolding ex_scenario1_def ex_open5_def
    by (intro reachable.r_push reachable.r_want reachable.r_init)
       (simp_all add: PACKET_QUEUE_LEN_def)
  have f: "fst (prepare_to_send_to mock_crypto 5 ex_scenario1)" by code_simp
  then have p: "prepare_to_send_to mock_crypto 5 ex_scenario1
                  = (True, snd (prepare_to_send_to mock_crypto 5 ex_scenario1))"
    by (simp add: prod_eq_iff)
  have g: "sending (snd (prepare_to_send_to mock_crypto 5 ex_scenario1)) = Some 31" by code_simp
  note u = claim_binds_slot [THEN conjunct2, THEN mp, OF r]
  from u p g s(1) have d: "sq_peek (packet (que ex_scenario1 31)) = Some 5"
    by blast
  from e n a b c r f g d show ?thesis by blast
qed


text \<open>
  C7. The claim is that a slot bound to \<open>a\<close> with room is the one returned. The scan
  runs from slot 31 down and stops at the first slot that passes either test, so a free
  or stale slot of a higher index is claimed before the bound slot is reached: in
  \<open>ex_two_drained\<close> slot 30 is bound to 5 with 75 bytes free, slot 31 is free, and
  \<^verbatim>\<open>want_to_send_for(5, 1, 0)\<close> returns slot 31.
\<close>

theorem bound_slot_not_returned:
  "coalesces 5 1 (que ex_two_drained 30)
   \<and> que ex_two_drained 30 = \<lparr>addr = 5, packet = [5], time = 0\<rparr>
   \<and> fst (want_to_send_for 5 1 0 ex_two_drained) = Some 31
   \<and> que (snd (want_to_send_for 5 1 0 ex_two_drained)) 31 = \<lparr>addr = 5, packet = [5], time = 0\<rparr>"
proof -
  have "coalesces 5 1 (que ex_two_drained 30)" by code_simp
  moreover have "que ex_two_drained 30 = \<lparr>addr = 5, packet = [5], time = 0\<rparr>" by code_simp
  moreover have "fst (want_to_send_for 5 1 0 ex_two_drained) = Some 31" by code_simp
  moreover have "que (snd (want_to_send_for 5 1 0 ex_two_drained)) 31
                   = \<lparr>addr = 5, packet = [5], time = 0\<rparr>" by code_simp
  ultimately show ?thesis by blast
qed

text \<open>
  C7, amended. If slot \<open>s\<close> is bound to the non-sync address \<open>a\<close> with more than
  \<open>bytes\<close> bytes free, and every slot of a higher index fails both tests of the scan
  (it is neither free nor stale, nor bound to \<open>a\<close> with room), then the call returns
  slot \<open>s\<close> and the state is unchanged, so that the same call made again returns
  slot \<open>s\<close> again.
\<close>

theorem coalesce_returns_slot:
  assumes "s < PACKET_QUEUE_LEN"
    and "uint a \<noteq> SYNC_ADDR"
    and "sint (addr (que q s)) = uint a"
    and "unat bytes < sq_free_size SENT_PACKET_LEN (packet (que q s))"
    and "\<forall>j. s < j \<and> j < PACKET_QUEUE_LEN \<longrightarrow> passed_over a bytes curtime q j"
  shows "want_to_send_for a bytes curtime q = (Some s, q)
         \<and> want_to_send_for a bytes curtime (snd (want_to_send_for a bytes curtime q)) = (Some s, q)"
proof -
  from assms(2-4) have "coalesces a bytes (que q s)"
    by (simp add: coalesces_def)
  with want_loop_at [OF assms(1) assms(5)]
  have "want_to_send_for a bytes curtime q = (Some s, q)" by simp
  then show ?thesis by simp
qed

theorem coalesce_returns_slot_witness:
  "(30 :: nat) < PACKET_QUEUE_LEN
   \<and> uint (5 :: uint8_t) \<noteq> SYNC_ADDR
   \<and> sint (addr (que ex_two 30)) = uint (5 :: uint8_t)
   \<and> unat (2 :: uint8_t) < sq_free_size SENT_PACKET_LEN (packet (que ex_two 30))
   \<and> passed_over 5 2 1 ex_two 31
   \<and> want_to_send_for 5 2 1 ex_two = (Some 30, ex_two)"
proof -
  have a: "(30 :: nat) < PACKET_QUEUE_LEN" by (simp add: PACKET_QUEUE_LEN_def)
  have b: "uint (5 :: uint8_t) \<noteq> SYNC_ADDR" by (simp add: SYNC_ADDR_def)
  have c: "sint (addr (que ex_two 30)) = uint (5 :: uint8_t)" by code_simp
  have d: "unat (2 :: uint8_t) < sq_free_size SENT_PACKET_LEN (packet (que ex_two 30))"
    by code_simp
  have p: "passed_over 5 2 1 ex_two 31" by code_simp
  have e: "\<forall>j. 30 < j \<and> j < PACKET_QUEUE_LEN \<longrightarrow> passed_over 5 2 1 ex_two j"
  proof (intro allI impI)
    fix j :: nat assume "30 < j \<and> j < PACKET_QUEUE_LEN"
    then have "j = 31" by (simp add: PACKET_QUEUE_LEN_def)
    with p show "passed_over 5 2 1 ex_two j" by simp
  qed
  from coalesce_returns_slot [OF a b c d e] a b c d p show ?thesis by simp
qed

text \<open>
  C8. When a frame is already frozen (\<open>sending\<close> is not null), \<^verbatim>\<open>prepare_to_send_to\<close>
  returns false for every address and the state it returns is the state it was given:
  no slot, neither buffer and not \<open>sending\<close> has changed.
\<close>

theorem prepare_while_busy:
  "sending q = Some s \<Longrightarrow> prepare_to_send_to cr a q = (False, q)"
  by (simp add: prepare_to_send_to_def)

theorem prepare_while_busy_witness:
  "sending ex_frozen5 = Some 31
   \<and> prepare_to_send_to mock_crypto 7 ex_frozen5 = (False, ex_frozen5)"
proof -
  have h: "sending ex_frozen5 = Some 31" by code_simp
  from prepare_while_busy [OF h, of mock_crypto 7] h show ?thesis by simp
qed

text \<open>
  C9. For every 8-bit argument, a successful \<^verbatim>\<open>prepare_to_send_to\<close> freezes a slot
  whose signed \<open>addr\<close> equals the unsigned argument, hence is neither \<open>-1\<close> nor \<open>-2\<close>;
  and whatever the call returns, every slot that was free or frozen before it is
  unchanged after it.
\<close>

theorem prepare_skips_sentinels:
  "prepare_to_send_to cr a q = (r, q') \<Longrightarrow>
     (r \<longrightarrow> (\<exists>s < PACKET_QUEUE_LEN. sending q' = Some s
                 \<and> sint (addr (que q s)) = uint a
                 \<and> sint (addr (que q s)) \<noteq> -1 \<and> sint (addr (que q s)) \<noteq> -2))
     \<and> (\<forall>j. sint (addr (que q j)) = -1 \<or> sint (addr (que q j)) = -2 \<longrightarrow> que q' j = que q j)"
proof (cases r)
  case False
  assume "prepare_to_send_to cr a q = (r, q')"
  with False have "q' = q"
    by (auto simp: prepare_to_send_to_def dest: prepare_loop_False split: if_splits)
  with False show ?thesis by simp
next
  case True
  assume "prepare_to_send_to cr a q = (r, q')"
  with True have "prepare_loop cr 0 a q = (True, q')"
    by (simp add: prepare_to_send_to_def split: if_splits)
  then obtain s where s: "s < PACKET_QUEUE_LEN" "sint (addr (que q s)) = uint a"
    "q' = freeze_slot cr s q"
    by (blast dest: prepare_loop_True)
  have ns: "sint (addr (que q s)) \<noteq> -1 \<and> sint (addr (que q s)) \<noteq> -2"
    using sentinel_never_matches [of "addr (que q s)" a] s(2) by auto
  have "\<forall>j. sint (addr (que q j)) = -1 \<or> sint (addr (que q j)) = -2 \<longrightarrow> que q' j = que q j"
  proof (intro allI impI)
    fix j assume "sint (addr (que q j)) = -1 \<or> sint (addr (que q j)) = -2"
    with ns have "j \<noteq> s" by auto
    then show "que q' j = que q j" by (simp add: s(3) freeze_slot_other)
  qed
  with s ns show ?thesis
    by (auto simp: freeze_slot_sending)
qed

theorem prepare_skips_sentinels_witness:
  "fst (prepare_to_send_to mock_crypto 5 ex_open5)
   \<and> sending ex_frozen5 = Some 31
   \<and> sint (addr (que ex_open5 31)) = 5
   \<and> sint (addr (que ex_open5 30)) = -1
   \<and> que ex_frozen5 30 = que ex_open5 30"
proof -
  have h: "fst (prepare_to_send_to mock_crypto 5 ex_open5)" by code_simp
  then have e: "prepare_to_send_to mock_crypto 5 ex_open5 = (True, ex_frozen5)"
    by (simp add: prod_eq_iff ex_frozen5_def)
  have f: "sint (addr (que ex_open5 30)) = -1" by code_simp
  have g: "sending ex_frozen5 = Some 31" by code_simp
  have k: "sint (addr (que ex_open5 31)) = 5" by code_simp
  from prepare_skips_sentinels [OF e] f have "que ex_frozen5 30 = que ex_open5 30"
    by blast
  with h f g k show ?thesis by simp
qed

text \<open>
  C10. When no frame is in flight (\<open>sending\<close> is null), \<^verbatim>\<open>pop\<close> returns false and the
  whole state is as before the call.
\<close>

theorem pop_idle:
  "sending q = None \<Longrightarrow> pop q = (False, q)"
  by (simp add: pop_def)

theorem pop_idle_witness:
  "sending ex_open5 = None \<and> pop ex_open5 = (False, ex_open5)"
proof -
  have h: "sending ex_open5 = None" by code_simp
  from pop_idle [OF h] h show ?thesis by simp
qed

end
